theory Spec2Isabelle
  imports Main "HOL-Library.Word" "HOL-Library.Multiset"
begin

unbundle bit_operations_syntax

section \<open>Data model\<close>

text \<open>
  A path is a \<open>std::wstring\<close>; only equality of paths is ever used, so a path is a
  \<open>string\<close>. A byte is the \<open>char\<close> of the buffers. \<open>std::streamsize\<close> is a signed
  64-bit integer; every offset the program computes is at most the length of a file it
  has read, which the operating system keeps below \<open>2 ^ 63\<close>, so offsets are \<open>int\<close>.
\<close>

type_synonym path = string
type_synonym byte = "8 word"

text \<open>\<open>typedef std::pair<std::streamsize, char> GroupKey\<close>\<close>

type_synonym GroupKey = "int \<times> byte"

text \<open>Every line the program writes to \<open>std::wcerr\<close> or \<open>std::wcout\<close>.\<close>

datatype msg =
    ErrorOpeningMasterFile path
  | ErrorOpeningRightFile path
  | FailedToOpenFile path
  | FailedToGetFileInformation path
  | NoDuplicatesInGroup
  | FailedToGetUniqueIdForMaster path
  | MasterFile path
  | FailedToGetUniqueIdForFile path
  | SkippingAlreadyLinked path
  | ErrorDeletingDuplicate path
  | ErrorCreatingHardLink path path
  | ReplacedDuplicate path path
  | Usage
  | UsageExample
  | DuplicateGroupHeader nat nat
  | GroupMember path
  | NoDuplicateFilesFound
  | Star
  | FailedToDeduplicateGroup

definition BUFFER_SIZE :: nat where
  "BUFFER_SIZE = 4096"

definition MAX_BATCH :: nat where
  "MAX_BATCH = 256"

section \<open>Input file streams\<close>

text \<open>
  The files the comparator can read: the bytes of a path, or \<open>None\<close> when the path
  cannot be opened for reading. The files do not change during a run.
\<close>

type_synonym filesystem = "path \<Rightarrow> byte list option"

text \<open>
  A \<open>std::ifstream\<close> in binary mode: the bytes of the file it was opened on, the read
  position, and the two state bits the program tests (\<open>operator!\<close> is \<open>failbit\<close>,
  \<open>eof()\<close> is \<open>eofbit\<close>).
\<close>

record ifstream =
  content :: "byte list"
  pos :: nat
  eofbit :: bool
  failbit :: bool

definition ifstream_open :: "filesystem \<Rightarrow> path \<Rightarrow> ifstream" where
  "ifstream_open fs p =
     (case fs p of
        None \<Rightarrow> \<lparr>content = [], pos = 0, eofbit = False, failbit = True\<rparr>
      | Some bs \<Rightarrow> \<lparr>content = bs, pos = 0, eofbit = False, failbit = False\<rparr>)"

text \<open>
  \<open>seekg(off, std::ios::beg)\<close>: clears \<open>eofbit\<close>, does nothing more on a failed stream,
  fails on a negative offset, and otherwise moves the position (also past the end).
\<close>

definition seekg :: "ifstream \<Rightarrow> int \<Rightarrow> ifstream" where
  "seekg s off =
     (let s1 = s\<lparr>eofbit := False\<rparr> in
      if failbit s1 then s1
      else if off < 0 then s1\<lparr>failbit := True\<rparr>
      else s1\<lparr>pos := nat off\<rparr>)"

text \<open>
  \<open>read(buf, n)\<close> followed by \<open>gcount()\<close>: the bytes extracted (\<open>gcount\<close> is their
  number). A stream that is not good extracts nothing and sets \<open>failbit\<close>; fewer than
  \<open>n\<close> bytes left sets \<open>eofbit\<close> and \<open>failbit\<close>.
\<close>

definition ifstream_read :: "ifstream \<Rightarrow> nat \<Rightarrow> ifstream \<times> byte list" where
  "ifstream_read s n =
     (if eofbit s \<or> failbit s then (s\<lparr>failbit := True\<rparr>, [])
      else
        let bs = take n (drop (pos s) (content s)) in
        if length bs < n
        then (s\<lparr>pos := pos s + length bs, eofbit := True, failbit := True\<rparr>, bs)
        else (s\<lparr>pos := pos s + length bs\<rparr>, bs))"

text \<open>
  \<open>peek()\<close>: consumes nothing; on a good stream with no byte left it sets \<open>eofbit\<close>;
  on a stream that is not good it sets \<open>failbit\<close> only.
\<close>

definition ifstream_peek :: "ifstream \<Rightarrow> ifstream" where
  "ifstream_peek s =
     (if eofbit s \<or> failbit s then s\<lparr>failbit := True\<rparr>
      else if length (content s) \<le> pos s then s\<lparr>eofbit := True\<rparr>
      else s)"

record RightFileState =
  filePath :: path
  stream :: ifstream

section \<open>The map of partition buckets\<close>

text \<open>
  \<open>std::map<GroupKey, std::vector<std::wstring>>\<close>: the entries in increasing key order.
  Pairs are ordered lexicographically, the second component as the signed \<open>char\<close> of
  the platform the program is written for.
\<close>

type_synonym keyGroups = "(GroupKey \<times> path list) list"

definition key_less :: "GroupKey \<Rightarrow> GroupKey \<Rightarrow> bool" where
  "key_less a b = (fst a < fst b \<or> (\<not> fst b < fst a \<and> sint (snd a) < sint (snd b)))"

text \<open>\<open>keyGroups[key].push_back(p)\<close>\<close>

fun keyGroups_push :: "GroupKey \<Rightarrow> path \<Rightarrow> keyGroups \<Rightarrow> keyGroups" where
  "keyGroups_push k p [] = [(k, [p])]"
| "keyGroups_push k p ((k', ps) # rest) =
     (if k = k' then (k', ps @ [p]) # rest
      else if key_less k k' then (k, [p]) # (k', ps) # rest
      else (k', ps) # keyGroups_push k p rest)"

definition bucket :: "keyGroups \<Rightarrow> GroupKey \<Rightarrow> path list" where
  "bucket kg k = (case map_of kg k of None \<Rightarrow> [] | Some ps \<Rightarrow> ps)"

definition keyGroups_sorted :: "keyGroups \<Rightarrow> bool" where
  "keyGroups_sorted kg = sorted_wrt key_less (map fst kg)"

section \<open>Chunked multi-reader comparator\<close>

text \<open>The loop that finds the first index at which two chunks differ.\<close>

fun mismatchIndex :: "byte list \<Rightarrow> byte list \<Rightarrow> nat" where
  "mismatchIndex (a # as) (b # bs) = (if a \<noteq> b then 0 else Suc (mismatchIndex as bs))"
| "mismatchIndex _ _ = 0"

text \<open>Opening the right files: a file that fails to open is reported and left out.\<close>

fun open_right_files ::
  "filesystem \<Rightarrow> path list \<Rightarrow> int \<Rightarrow> msg list \<Rightarrow> RightFileState list \<times> msg list" where
  "open_right_files fs [] totalBytesRead out = ([], out)"
| "open_right_files fs (p # ps) totalBytesRead out =
     (let s = ifstream_open fs p in
      if failbit s then open_right_files fs ps totalBytesRead (out @ [ErrorOpeningRightFile p])
      else
        case open_right_files fs ps totalBytesRead out of
          (rightStates, out') \<Rightarrow>
            (\<lparr>filePath = p, stream = seekg s totalBytesRead\<rparr> # rightStates, out'))"

text \<open>
  The body of the inner \<open>for\<close> loop for one right file and one master chunk has three
  ways out: the right file supplied fewer bytes (it is erased), its chunk differs from the
  master's (it is pushed into the bucket of the computed key and erased), or the chunks
  are equal (it stays, its stream advanced).
\<close>

datatype chunk_result = ShortRead | Mismatch GroupKey | Match ifstream

definition compare_right :: "byte list \<Rightarrow> int \<Rightarrow> ifstream \<Rightarrow> chunk_result" where
  "compare_right masterBuffer totalBytesRead s =
     (case ifstream_read s (length masterBuffer) of
        (s', rightBuffer) \<Rightarrow>
          if length rightBuffer \<noteq> length masterBuffer then ShortRead
          else if masterBuffer \<noteq> rightBuffer then
            let i = mismatchIndex masterBuffer rightBuffer
            in Mismatch (totalBytesRead + int i, rightBuffer ! i)
          else Match s')"

text \<open>The inner \<open>for\<close> loop over \<open>rightStates\<close> for one master chunk.\<close>

fun compare_chunk ::
  "byte list \<Rightarrow> int \<Rightarrow> RightFileState list \<Rightarrow> keyGroups \<Rightarrow> RightFileState list \<times> keyGroups" where
  "compare_chunk masterBuffer totalBytesRead [] kg = ([], kg)"
| "compare_chunk masterBuffer totalBytesRead (st # rest) kg =
     (case compare_right masterBuffer totalBytesRead (stream st) of
        ShortRead \<Rightarrow> compare_chunk masterBuffer totalBytesRead rest kg
      | Mismatch key \<Rightarrow>
          compare_chunk masterBuffer totalBytesRead rest (keyGroups_push key (filePath st) kg)
      | Match s' \<Rightarrow>
          (case compare_chunk masterBuffer totalBytesRead rest kg of
              (rightStates, kg') \<Rightarrow> (st\<lparr>stream := s'\<rparr> # rightStates, kg')))"

lemma ifstream_read_advances:
  assumes "ifstream_read s n = (s', bs)" and "bs \<noteq> []"
  shows "length (content s') - pos s' < length (content s) - pos s"
  using assms
  by (auto simp: ifstream_read_def Let_def split: if_splits)

text \<open>The \<open>while (true)\<close> loop over the master's chunks.\<close>

function compare_chunks ::
  "ifstream \<Rightarrow> RightFileState list \<Rightarrow> int \<Rightarrow> keyGroups \<Rightarrow> RightFileState list \<times> keyGroups" where
  "compare_chunks master rightStates totalBytesRead kg =
     (case ifstream_read master BUFFER_SIZE of
        (master', masterBuffer) \<Rightarrow>
          if length masterBuffer \<le> 0 then (rightStates, kg)
          else
            case compare_chunk masterBuffer totalBytesRead rightStates kg of
              (rightStates', kg') \<Rightarrow>
                if rightStates' = [] then (rightStates', kg')
                else compare_chunks master' rightStates'
                       (totalBytesRead + int (length masterBuffer)) kg')"
  by pat_completeness auto
termination
  by (relation "measure (\<lambda>(m, rs, t, kg). length (content m) - pos m)")
     (auto dest: ifstream_read_advances [OF sym])

declare compare_chunks.simps [simp del]

text \<open>The final loop: a right file still in the list is recorded when \<open>peek\<close> finds its end.\<close>

fun end_check :: "RightFileState list \<Rightarrow> path list \<Rightarrow> path list" where
  "end_check [] duplicateGroup = duplicateGroup"
| "end_check (st # rest) duplicateGroup =
     (if eofbit (ifstream_peek (stream st))
      then end_check rest (duplicateGroup @ [filePath st])
      else end_check rest duplicateGroup)"

fun CompareFilesBufferedAdvanced ::
  "filesystem \<Rightarrow> path \<Rightarrow> path list \<Rightarrow> int \<Rightarrow> keyGroups \<times> path list \<times> msg list
     \<Rightarrow> keyGroups \<times> path list \<times> msg list" where
  "CompareFilesBufferedAdvanced fs masterFilePath rightFiles totalBytesRead
       (kg, duplicateGroup, out) =
     (let master = ifstream_open fs masterFilePath in
      if failbit master then (kg, duplicateGroup, out @ [ErrorOpeningMasterFile masterFilePath])
      else
        case open_right_files fs rightFiles totalBytesRead out of
          (rightStates, out') \<Rightarrow>
            case compare_chunks (seekg master totalBytesRead) rightStates totalBytesRead kg of
              (rightStates', kg') \<Rightarrow> (kg', end_check rightStates' duplicateGroup, out'))"

text \<open>All paths stored in the buckets, bucket by bucket.\<close>

definition keyGroups_paths :: "keyGroups \<Rightarrow> path list" where
  "keyGroups_paths kg = concat (map snd kg)"

subsection \<open>No path is routed twice\<close>

lemma keyGroups_paths_simps [simp]:
  "keyGroups_paths [] = []"
  "keyGroups_paths (e # kg) = snd e @ keyGroups_paths kg"
  by (simp_all add: keyGroups_paths_def)

lemma mset_keyGroups_push:
  "mset (keyGroups_paths (keyGroups_push k p kg)) = add_mset p (mset (keyGroups_paths kg))"
  by (induction kg) auto

lemma subseteq_add_mset: "A \<subseteq># B \<Longrightarrow> A \<subseteq># add_mset x B"
  using subset_mset.trans by fastforce

lemma compare_chunk_mset:
  "compare_chunk mb t rs kg = (rs', kg') \<Longrightarrow>
   mset (map filePath rs') + mset (keyGroups_paths kg')
     \<subseteq># mset (map filePath rs) + mset (keyGroups_paths kg)"
proof (induction rs arbitrary: kg rs' kg')
  case Nil
  then show ?case by simp
next
  case (Cons st rest)
  show ?case
  proof (cases "compare_right mb t (stream st)")
    case ShortRead
    with Cons.prems have "compare_chunk mb t rest kg = (rs', kg')" by simp
    from Cons.IH [OF this] show ?thesis
      by (simp add: subseteq_add_mset)
  next
    case (Mismatch key)
    with Cons.prems have "compare_chunk mb t rest (keyGroups_push key (filePath st) kg) = (rs', kg')"
      by simp
    from Cons.IH [OF this] show ?thesis
      by (simp add: mset_keyGroups_push)
  next
    case (Match s')
    obtain rs1 kg1 where r: "compare_chunk mb t rest kg = (rs1, kg1)"
      by (cases "compare_chunk mb t rest kg")
    with Match Cons.prems have "rs' = st\<lparr>stream := s'\<rparr> # rs1" "kg' = kg1" by auto
    with Cons.IH [OF r] show ?thesis by simp
  qed
qed

lemma compare_chunks_mset:
  "compare_chunks m rs t kg = (rs', kg') \<Longrightarrow>
   mset (map filePath rs') + mset (keyGroups_paths kg')
     \<subseteq># mset (map filePath rs) + mset (keyGroups_paths kg)"
proof (induction m rs t kg arbitrary: rs' kg' rule: compare_chunks.induct)
  case (1 master rightStates totalBytesRead kg)
  obtain m1 mb where rd: "ifstream_read master BUFFER_SIZE = (m1, mb)"
    by (cases "ifstream_read master BUFFER_SIZE")
  show ?case
  proof (cases "mb = []")
    case True
    with rd "1.prems" show ?thesis by (simp add: compare_chunks.simps [of master])
  next
    case False
    obtain rs1 kg1 where cc: "compare_chunk mb totalBytesRead rightStates kg = (rs1, kg1)"
      by (cases "compare_chunk mb totalBytesRead rightStates kg")
    note step = compare_chunk_mset [OF cc]
    show ?thesis
    proof (cases "rs1 = []")
      case True
      with rd False cc "1.prems" step show ?thesis
        by (simp add: compare_chunks.simps [of master])
    next
      case ne: False
      with rd False cc "1.prems"
      have "compare_chunks m1 rs1 (totalBytesRead + int (length mb)) kg1 = (rs', kg')"
        by (simp add: compare_chunks.simps [of master])
      from "1.IH" [OF rd [symmetric] _ cc [symmetric] ne this] False
      have "mset (map filePath rs') + mset (keyGroups_paths kg')
              \<subseteq># mset (map filePath rs1) + mset (keyGroups_paths kg1)" by simp
      with step show ?thesis by (meson subset_mset.order_trans)
    qed
  qed
qed

lemma open_right_files_mset:
  "open_right_files fs ps t out = (rs, out') \<Longrightarrow> mset (map filePath rs) \<subseteq># mset ps"
proof (induction ps arbitrary: out rs out')
  case Nil
  then show ?case by simp
next
  case (Cons p ps)
  show ?case
  proof (cases "failbit (ifstream_open fs p)")
    case True
    with Cons.prems
    have "open_right_files fs ps t (out @ [ErrorOpeningRightFile p]) = (rs, out')"
      by simp
    from Cons.IH [OF this] show ?thesis by (simp add: subseteq_add_mset)
  next
    case False
    obtain rs1 out1 where r: "open_right_files fs ps t out = (rs1, out1)"
      by (cases "open_right_files fs ps t out")
    with False Cons.prems have "rs = \<lparr>filePath = p, stream = seekg (ifstream_open fs p) t\<rparr> # rs1"
      by auto
    with Cons.IH [OF r] show ?thesis by simp
  qed
qed

lemma end_check_mset:
  "mset (end_check rs dg) \<subseteq># mset dg + mset (map filePath rs)"
proof (induction rs arbitrary: dg)
  case Nil
  show ?case by simp
next
  case (Cons st rest)
  from Cons.IH [of "dg @ [filePath st]"] Cons.IH [of dg] show ?case
    by (auto simp: subseteq_add_mset)
qed

lemma end_check_eq:
  "end_check rs dg = dg @ map filePath (filter (\<lambda>st. eofbit (ifstream_peek (stream st))) rs)"
  by (induction rs arbitrary: dg) auto

lemma end_check_prefix: "\<exists>new. end_check rs dg = dg @ new"
  by (simp add: end_check_eq)

lemma CompareFilesBufferedAdvanced_mset:
  assumes "CompareFilesBufferedAdvanced fs pivot ps t (kg, dg, out) = (kg', dg', out')"
  shows "mset dg' + mset (keyGroups_paths kg') \<subseteq># mset dg + mset (keyGroups_paths kg) + mset ps"
proof (cases "failbit (ifstream_open fs pivot)")
  case True
  with assms show ?thesis by auto
next
  case False
  obtain rs out1 where o: "open_right_files fs ps t out = (rs, out1)"
    by (cases "open_right_files fs ps t out")
  obtain rs1 kg1 where c: "compare_chunks (seekg (ifstream_open fs pivot) t) rs t kg = (rs1, kg1)"
    by (cases "compare_chunks (seekg (ifstream_open fs pivot) t) rs t kg")
  from assms False o c have res: "kg' = kg1" "dg' = end_check rs1 dg"
    by auto
  have "mset dg' + mset (keyGroups_paths kg')
          \<subseteq># mset dg + (mset (map filePath rs1) + mset (keyGroups_paths kg1))"
    using end_check_mset [of rs1 dg] res
    by (simp add: add.assoc [symmetric])
  also have "\<dots> \<subseteq># mset dg + (mset (map filePath rs) + mset (keyGroups_paths kg))"
    using compare_chunks_mset [OF c] by simp
  also have "\<dots> \<subseteq># mset dg + (mset ps + mset (keyGroups_paths kg))"
    using open_right_files_mset [OF o] by simp
  finally show ?thesis by (simp add: ac_simps)
qed

lemma CompareFilesBufferedAdvanced_prefix:
  assumes "CompareFilesBufferedAdvanced fs pivot ps t (kg, dg, out) = (kg', dg', out')"
  shows "\<exists>new. dg' = dg @ new"
  using assms end_check_prefix
  by (auto simp: Let_def split: if_splits prod.splits)

section \<open>Content partitioner\<close>

text \<open>The batching \<open>while\<close> loop of the partitioner.\<close>

function compare_batches ::
  "filesystem \<Rightarrow> path \<Rightarrow> path list \<Rightarrow> nat \<Rightarrow> int \<Rightarrow> keyGroups \<times> path list \<times> msg list
     \<Rightarrow> keyGroups \<times> path list \<times> msg list" where
  "compare_batches fs pivot rightFiles processed totalBytesRead acc =
     (if processed < length rightFiles then
        let batchSize = min (length rightFiles - processed) MAX_BATCH;
            batch = take batchSize (drop processed rightFiles)
        in compare_batches fs pivot rightFiles (processed + batchSize) totalBytesRead
             (CompareFilesBufferedAdvanced fs pivot batch totalBytesRead acc)
      else acc)"
  by pat_completeness auto
termination
  by (relation "measure (\<lambda>(fs, pivot, rightFiles, processed, t, acc). length rightFiles - processed)")
     (auto simp: MAX_BATCH_def)

declare compare_batches.simps [simp del]

lemma compare_batches_mset:
  "compare_batches fs pivot ps n t (kg, dg, out) = (kg', dg', out') \<Longrightarrow>
   mset dg' + mset (keyGroups_paths kg')
     \<subseteq># mset dg + mset (keyGroups_paths kg) + mset (drop n ps)"
proof (induction fs pivot ps n t "(kg, dg, out)" arbitrary: kg dg out rule: compare_batches.induct)
  case (1 fs pivot ps n t)
  show ?case
  proof (cases "n < length ps")
    case False
    with "1.prems" show ?thesis by (simp add: compare_batches.simps [of _ _ _ n])
  next
    case True
    define b where "b = min (length ps - n) MAX_BATCH"
    obtain kg1 dg1 out1 where
      c: "CompareFilesBufferedAdvanced fs pivot (take b (drop n ps)) t (kg, dg, out) = (kg1, dg1, out1)"
      by (cases "CompareFilesBufferedAdvanced fs pivot (take b (drop n ps)) t (kg, dg, out)")
    with True "1.prems" have r: "compare_batches fs pivot ps (n + b) t (kg1, dg1, out1) = (kg', dg', out')"
      by (simp add: compare_batches.simps [of _ _ _ n] b_def Let_def)
    have "mset dg' + mset (keyGroups_paths kg')
            \<subseteq># mset dg1 + mset (keyGroups_paths kg1) + mset (drop (n + b) ps)"
      using "1.hyps" [OF True b_def refl c r] .
    also have "\<dots> \<subseteq># mset dg + mset (keyGroups_paths kg) + mset (take b (drop n ps)) + mset (drop (n + b) ps)"
      using CompareFilesBufferedAdvanced_mset [OF c] by simp
    also have "\<dots> = mset dg + mset (keyGroups_paths kg) + mset (drop n ps)"
    proof -
      have "take b (drop n ps) @ drop (n + b) ps = drop n ps"
        by (metis add.commute append_take_drop_id drop_drop)
      then have "mset (take b (drop n ps)) + mset (drop (n + b) ps) = mset (drop n ps)"
        by (metis mset_append)
      then show ?thesis by (simp add: add.assoc)
    qed
    finally show ?thesis .
  qed
qed

lemma compare_batches_prefix:
  "compare_batches fs pivot ps n t (kg, dg, out) = (kg', dg', out') \<Longrightarrow> \<exists>new. dg' = dg @ new"
proof (induction fs pivot ps n t "(kg, dg, out)" arbitrary: kg dg out rule: compare_batches.induct)
  case (1 fs pivot ps n t)
  show ?case
  proof (cases "n < length ps")
    case False
    with "1.prems" show ?thesis by (simp add: compare_batches.simps [of _ _ _ n])
  next
    case True
    define b where "b = min (length ps - n) MAX_BATCH"
    obtain kg1 dg1 out1 where
      c: "CompareFilesBufferedAdvanced fs pivot (take b (drop n ps)) t (kg, dg, out) = (kg1, dg1, out1)"
      by (cases "CompareFilesBufferedAdvanced fs pivot (take b (drop n ps)) t (kg, dg, out)")
    with True "1.prems" have r: "compare_batches fs pivot ps (n + b) t (kg1, dg1, out1) = (kg', dg', out')"
      by (simp add: compare_batches.simps [of _ _ _ n] b_def Let_def)
    from "1.hyps" [OF True b_def refl c r] CompareFilesBufferedAdvanced_prefix [OF c]
    show ?thesis by auto
  qed
qed

lemma length_bucket_le:
  "e \<in> set kg \<Longrightarrow> length (snd e) \<le> length (keyGroups_paths kg)"
  by (induction kg) auto

lemma bucket_shorter:
  assumes "compare_batches fs pivot (tl files) 0 t ([], [pivot], out) = (kg, dg, out')"
    and "(k, b) \<in> set kg" and "\<not> length files < 2"
  shows "length b < length files"
proof -
  from compare_batches_mset [OF assms(1)]
  have "size (mset dg + mset (keyGroups_paths kg)) \<le> size (mset [pivot] + mset (keyGroups_paths []) + mset (drop 0 (tl files)))"
    by (rule size_mset_mono)
  then have "length dg + length (keyGroups_paths kg) \<le> 1 + length (tl files)"
    by simp
  moreover from compare_batches_prefix [OF assms(1)] have "1 \<le> length dg"
    by auto
  ultimately have "length (keyGroups_paths kg) \<le> length (tl files)"
    by simp
  with length_bucket_le [OF assms(2)] assms(3) show ?thesis
    by (cases files) auto
qed

text \<open>
  The partitioner. The out-parameter \<open>duplicateGroups\<close> and the error stream are passed
  in and returned; the \<open>for\<close> loop over the map visits the buckets in key order.
\<close>

function GroupFilesByContentUsingMap ::
  "filesystem \<Rightarrow> path list \<Rightarrow> path list list \<times> msg list \<Rightarrow> int
     \<Rightarrow> path list list \<times> msg list" where
  "GroupFilesByContentUsingMap fs files (duplicateGroups, out) totalBytesRead =
     (if length files < 2 then (duplicateGroups, out)
      else
        let pivot = files ! 0 in
        case compare_batches fs pivot (tl files) 0 totalBytesRead ([], [pivot], out) of
          (kg, duplicateGroup, out') \<Rightarrow>
            fold (\<lambda>entry acc.
                    if length (snd entry) > 1
                    then GroupFilesByContentUsingMap fs (snd entry) acc (fst (fst entry))
                    else acc)
                 kg
                 (if length duplicateGroup > 1 then duplicateGroups @ [duplicateGroup]
                  else duplicateGroups, out'))"
  by pat_completeness auto
termination
  apply (relation "measure (\<lambda>(fs, files, acc, t). length files)")
   apply simp
   apply clarsimp
  apply (rule bucket_shorter [OF sym], assumption, assumption)
  apply simp
  done

declare GroupFilesByContentUsingMap.simps [simp del]

section \<open>Hard-link deduplicator\<close>

text \<open>
  The volume as the deduplicator sees it through the Win32 calls it makes: the directory
  (each name with the file index, high and low half, of the storage it refers to), for
  each call the names on which the system refuses it, the calls made so far, and the
  console. Two names are hard links to one file when they carry the same file index.
\<close>

datatype os_call =
    CallCreateFile path
  | CallGetFileInformationByHandle path
  | CallDeleteFile path
  | CallCreateHardLink path path

record world =
  dir :: "(path \<times> (32 word \<times> 32 word)) list"
  open_denied :: "path \<Rightarrow> bool"
  info_denied :: "path \<Rightarrow> bool"
  delete_denied :: "path \<Rightarrow> bool"
  link_denied :: "path \<Rightarrow> bool"
  calls :: "os_call list"
  console :: "msg list"

record BY_HANDLE_FILE_INFORMATION =
  nFileIndexHigh :: "32 word"
  nFileIndexLow :: "32 word"
  nNumberOfLinks :: "32 word"

definition print :: "msg \<Rightarrow> world \<Rightarrow> world" where
  "print m w = w\<lparr>console := console w @ [m]\<rparr>"

text \<open>\<open>CreateFileW\<close> with \<open>OPEN_EXISTING\<close>: whether a valid handle came back.\<close>

definition CreateFileW :: "path \<Rightarrow> world \<Rightarrow> bool \<times> world" where
  "CreateFileW p w =
     (map_of (dir w) p \<noteq> None \<and> \<not> open_denied w p,
      w\<lparr>calls := calls w @ [CallCreateFile p]\<rparr>)"

text \<open>\<open>GetFileInformationByHandle\<close> on a handle opened on the name \<open>p\<close>.\<close>

definition GetFileInformationByHandle ::
  "path \<Rightarrow> world \<Rightarrow> BY_HANDLE_FILE_INFORMATION option \<times> world" where
  "GetFileInformationByHandle p w =
     (if info_denied w p then None
      else
        case map_of (dir w) p of
          None \<Rightarrow> None
        | Some idx \<Rightarrow>
            Some \<lparr>nFileIndexHigh = fst idx, nFileIndexLow = snd idx,
                  nNumberOfLinks = of_nat (length (filter (\<lambda>e. snd e = idx) (dir w)))\<rparr>,
      w\<lparr>calls := calls w @ [CallGetFileInformationByHandle p]\<rparr>)"

text \<open>\<open>DeleteFileW\<close>: removes the name, or fails and changes nothing.\<close>

definition DeleteFileW :: "path \<Rightarrow> world \<Rightarrow> bool \<times> world" where
  "DeleteFileW p w =
     (let w1 = w\<lparr>calls := calls w @ [CallDeleteFile p]\<rparr> in
      if map_of (dir w) p = None \<or> delete_denied w p then (False, w1)
      else (True, w1\<lparr>dir := filter (\<lambda>e. fst e \<noteq> p) (dir w)\<rparr>))"

text \<open>
  \<open>CreateHardLinkW(newName, existing)\<close>: adds \<open>newName\<close> as one more name of the
  storage of \<open>existing\<close>; fails when \<open>newName\<close> exists already, when \<open>existing\<close> does
  not, or when the volume refuses.
\<close>

definition CreateHardLinkW :: "path \<Rightarrow> path \<Rightarrow> world \<Rightarrow> bool \<times> world" where
  "CreateHardLinkW newName existing w =
     (let w1 = w\<lparr>calls := calls w @ [CallCreateHardLink newName existing]\<rparr> in
      if map_of (dir w) newName \<noteq> None \<or> link_denied w newName then (False, w1)
      else
        case map_of (dir w) existing of
          None \<Rightarrow> (False, w1)
        | Some idx \<Rightarrow> (True, w1\<lparr>dir := dir w @ [(newName, idx)]\<rparr>))"

text \<open>
  \<open>GetFileUniqueIdAndLinkCount\<close>: \<open>None\<close> is the return value \<open>false\<close>; on success
  the two out-parameters \<open>uniqueId\<close> and \<open>numLinks\<close>.
\<close>

definition GetFileUniqueIdAndLinkCount ::
  "path \<Rightarrow> world \<Rightarrow> (64 word \<times> 32 word) option \<times> world" where
  "GetFileUniqueIdAndLinkCount fileName w =
     (case CreateFileW fileName w of
        (False, w1) \<Rightarrow> (None, print (FailedToOpenFile fileName) w1)
      | (True, w1) \<Rightarrow>
          (case GetFileInformationByHandle fileName w1 of
             (None, w2) \<Rightarrow> (None, print (FailedToGetFileInformation fileName) w2)
           | (Some fileInfo, w2) \<Rightarrow>
               (Some (push_bit 32 (ucast (nFileIndexHigh fileInfo)) OR ucast (nFileIndexLow fileInfo),
                      nNumberOfLinks fileInfo),
                w2)))"

text \<open>The body of the loop over the duplicates, for the member \<open>dupFile\<close>.\<close>

definition DeduplicateMember :: "path \<Rightarrow> 64 word \<Rightarrow> path \<Rightarrow> world \<Rightarrow> world" where
  "DeduplicateMember master masterId dupFile w =
     (case GetFileUniqueIdAndLinkCount dupFile w of
        (None, w1) \<Rightarrow> print (FailedToGetUniqueIdForFile dupFile) w1
      | (Some (dupId, dupLinks), w1) \<Rightarrow>
          if dupId = masterId then print (SkippingAlreadyLinked dupFile) w1
          else
            case DeleteFileW dupFile w1 of
              (False, w2) \<Rightarrow> print (ErrorDeletingDuplicate dupFile) w2
            | (True, w2) \<Rightarrow>
                (case CreateHardLinkW dupFile master w2 of
                   (False, w3) \<Rightarrow> print (ErrorCreatingHardLink dupFile master) w3
                 | (True, w3) \<Rightarrow> print (ReplacedDuplicate dupFile master) w3))"

text \<open>The loop \<open>for (size_t i = 1; i < duplicateGroup.size(); ++i)\<close>.\<close>

fun DeduplicateMembers :: "path \<Rightarrow> 64 word \<Rightarrow> path list \<Rightarrow> world \<Rightarrow> world" where
  "DeduplicateMembers master masterId [] w = w"
| "DeduplicateMembers master masterId (dupFile # rest) w =
     DeduplicateMembers master masterId rest (DeduplicateMember master masterId dupFile w)"

definition DeduplicateGroup :: "path list \<Rightarrow> world \<Rightarrow> bool \<times> world" where
  "DeduplicateGroup duplicateGroup w =
     (if length duplicateGroup < 2 then (True, print NoDuplicatesInGroup w)
      else
        let master = duplicateGroup ! 0 in
        case GetFileUniqueIdAndLinkCount master w of
          (None, w1) \<Rightarrow> (False, print (FailedToGetUniqueIdForMaster master) w1)
        | (Some (masterId, masterLinks), w1) \<Rightarrow>
            (True, DeduplicateMembers master masterId (drop 1 duplicateGroup)
                     (print (MasterFile master) w1)))"

section \<open>The entry point\<close>

text \<open>The loop that prints the members of a group.\<close>

definition print_members :: "path list \<Rightarrow> world \<Rightarrow> world" where
  "print_members grp w = fold (\<lambda>file. print (GroupMember file)) grp w"

text \<open>The loop over the groups found in one size bucket.\<close>

fun output_groups :: "nat \<Rightarrow> path list list \<Rightarrow> path list list \<times> world \<Rightarrow> path list list \<times> world" where
  "output_groups sz [] acc = acc"
| "output_groups sz (grp # rest) (allDuplicateGroups, w) =
     (if length grp < 2 then output_groups sz rest (allDuplicateGroups, w)
      else
        let allDuplicateGroups' = allDuplicateGroups @ [grp]
        in output_groups sz rest
             (allDuplicateGroups',
              print_members grp (print (DuplicateGroupHeader (length allDuplicateGroups') sz) w)))"

text \<open>The loop over the size buckets.\<close>

fun group_by_content ::
  "filesystem \<Rightarrow> (nat \<times> path list) list \<Rightarrow> path list list \<times> world \<Rightarrow> path list list \<times> world" where
  "group_by_content fs [] acc = acc"
| "group_by_content fs (entry # rest) (allDuplicateGroups, w) =
     (if length (snd entry) < 2 then group_by_content fs rest (allDuplicateGroups, w)
      else
        case GroupFilesByContentUsingMap fs (snd entry) ([], console w) 0 of
          (duplicateGroups, out') \<Rightarrow>
            group_by_content fs rest
              (output_groups (fst entry) duplicateGroups (allDuplicateGroups, w\<lparr>console := out'\<rparr>)))"

text \<open>The loop that deduplicates the groups; the result is the exit code.\<close>

fun deduplicate_all :: "path list list \<Rightarrow> world \<Rightarrow> int \<times> world" where
  "deduplicate_all [] w = (0, w)"
| "deduplicate_all (grp # rest) w =
     (case DeduplicateGroup grp (print Star w) of
        (False, w1) \<Rightarrow> (1, print_members grp (print FailedToDeduplicateGroup w1))
      | (True, w1) \<Rightarrow> deduplicate_all rest w1)"

text \<open>
  \<open>wmain\<close>, from the number of arguments and the map \<open>sizeGroups\<close> that the enumeration
  of the root folder filled (its entries in increasing size order).
\<close>

definition wmain :: "int \<Rightarrow> (nat \<times> path list) list \<Rightarrow> filesystem \<Rightarrow> world \<Rightarrow> int \<times> world" where
  "wmain argc sizeGroups fs w =
     (if argc < 2 then (1, print UsageExample (print Usage w))
      else
        case group_by_content fs sizeGroups ([], w) of
          (allDuplicateGroups, w1) \<Rightarrow>
            deduplicate_all allDuplicateGroups
              (if allDuplicateGroups = [] then print NoDuplicateFilesFound w1 else w1))"

section \<open>Notions for stating the properties\<close>

text \<open>
  The LinkIdentity of a name in a world: what \<open>GetFileUniqueIdAndLinkCount\<close> returns
  for it there.
\<close>

definition LinkIdentity :: "world \<Rightarrow> path \<Rightarrow> (64 word \<times> 32 word) option" where
  "LinkIdentity w p = fst (GetFileUniqueIdAndLinkCount p w)"

text \<open>The calls that change the directory.\<close>

fun mutating :: "os_call \<Rightarrow> bool" where
  "mutating (CallDeleteFile p) = True"
| "mutating (CallCreateHardLink p q) = True"
| "mutating (CallCreateFile p) = False"
| "mutating (CallGetFileInformationByHandle p) = False"

text \<open>Two worlds with the same directory and the same refusals.\<close>

definition same_volume :: "world \<Rightarrow> world \<Rightarrow> bool" where
  "same_volume w w' \<longleftrightarrow>
     dir w' = dir w \<and> open_denied w' = open_denied w \<and> info_denied w' = info_denied w \<and>
     delete_denied w' = delete_denied w \<and> link_denied w' = link_denied w"

text \<open>A volume on which \<open>l\<close> is already a hard link to \<open>m\<close>.\<close>

definition linked_world :: world where
  "linked_world =
     \<lparr>dir = [(''m'', (0, 7)), (''l'', (0, 7))], open_denied = (\<lambda>p. False),
      info_denied = (\<lambda>p. False), delete_denied = (\<lambda>p. False), link_denied = (\<lambda>p. False),
      calls = [], console = []\<rparr>"

text \<open>The \<open>uniqueId\<close> computed from the two halves of a file index.\<close>

definition uniqueId_of :: "32 word \<times> 32 word \<Rightarrow> 64 word" where
  "uniqueId_of idx = push_bit 32 (ucast (fst idx)) OR ucast (snd idx)"

text \<open>The name a call deletes or creates.\<close>

fun touches :: "os_call \<Rightarrow> path \<Rightarrow> bool" where
  "touches (CallDeleteFile p) q = (p = q)"
| "touches (CallCreateHardLink newName existing) q = (newName = q)"
| "touches (CallCreateFile p) q = False"
| "touches (CallGetFileInformationByHandle p) q = False"

text \<open>A volume with two files of their own storage.\<close>

definition unlinked_world :: world where
  "unlinked_world =
     \<lparr>dir = [(''m'', (0, 7)), (''d'', (0, 9))], open_denied = (\<lambda>p. False),
      info_denied = (\<lambda>p. False), delete_denied = (\<lambda>p. False), link_denied = (\<lambda>p. False),
      calls = [], console = []\<rparr>"

text \<open>
  The same volume, refusing to open \<open>m\<close>; and two files of 16384 bytes (the smallest
  size the enumeration keeps) with the same bytes.
\<close>

definition master_denied_world :: world where
  "master_denied_world =
     \<lparr>dir = [(''m'', (0, 7)), (''d'', (0, 9))], open_denied = (\<lambda>p. p = ''m''),
      info_denied = (\<lambda>p. False), delete_denied = (\<lambda>p. False), link_denied = (\<lambda>p. False),
      calls = [], console = []\<rparr>"

definition same_files :: filesystem where
  "same_files = [''m'' \<mapsto> replicate 16384 0, ''d'' \<mapsto> replicate 16384 0]"

text \<open>Two byte sequences agree on the positions from \<open>a\<close> up to, not including, \<open>b\<close>.\<close>

definition agree_between :: "nat \<Rightarrow> nat \<Rightarrow> byte list \<Rightarrow> byte list \<Rightarrow> bool" where
  "agree_between a b c m \<longleftrightarrow> take (b - a) (drop a c) = take (b - a) (drop a m)"

text \<open>
  The candidate bytes \<open>c\<close> diverge from the pivot bytes \<open>m\<close> at the key \<open>k\<close>, for a
  comparison that started at offset \<open>a\<close>: both have a byte at the key's offset, they agree
  from \<open>a\<close> up to it, and there the candidate has the key's byte and the pivot another one.
\<close>

definition diverges_at :: "nat \<Rightarrow> byte list \<Rightarrow> byte list \<Rightarrow> GroupKey \<Rightarrow> bool" where
  "diverges_at a m c k \<longleftrightarrow>
     int a \<le> fst k \<and> nat (fst k) < length c \<and> nat (fst k) < length m \<and>
     agree_between a (nat (fst k)) c m \<and>
     c ! nat (fst k) = snd k \<and> m ! nat (fst k) \<noteq> snd k"

text \<open>A right file in step with the master at position \<open>q\<close>.\<close>

definition in_step :: "filesystem \<Rightarrow> byte list \<Rightarrow> nat \<Rightarrow> nat \<Rightarrow> RightFileState \<Rightarrow> bool" where
  "in_step fs m a q st \<longleftrightarrow>
     fs (filePath st) = Some (content (stream st)) \<and>
     \<not> eofbit (stream st) \<and> \<not> failbit (stream st) \<and> pos (stream st) = q \<and>
     agree_between a q (content (stream st)) m"

text \<open>
  No bucket is empty, and every path in a bucket names a file that diverges from the pivot
  at the bucket's key.
\<close>

definition buckets_diverge :: "filesystem \<Rightarrow> byte list \<Rightarrow> nat \<Rightarrow> keyGroups \<Rightarrow> bool" where
  "buckets_diverge fs m a kg \<longleftrightarrow>
     (\<forall>e\<in>set kg. snd e \<noteq> [] \<and>
        (\<forall>p\<in>set (snd e). \<exists>c. fs p = Some c \<and> diverges_at a m c (fst e)))"

text \<open>The file named \<open>p\<close> has the pivot's bytes from offset \<open>a\<close> on.\<close>

definition survives :: "filesystem \<Rightarrow> byte list \<Rightarrow> nat \<Rightarrow> path \<Rightarrow> bool" where
  "survives fs m a p \<longleftrightarrow> (\<exists>c. fs p = Some c \<and> drop a c = drop a m)"

text \<open>
  The groups and the messages that one call of the partitioner adds to
  \<open>duplicateGroups\<close> and to the error stream.
\<close>

definition groups_of :: "filesystem \<Rightarrow> path list \<Rightarrow> int \<Rightarrow> path list list" where
  "groups_of fs files t = fst (GroupFilesByContentUsingMap fs files ([], []) t)"

definition messages_of :: "filesystem \<Rightarrow> path list \<Rightarrow> int \<Rightarrow> msg list" where
  "messages_of fs files t = snd (GroupFilesByContentUsingMap fs files ([], []) t)"

text \<open>Three files: \<open>a\<close> and \<open>b\<close> with the same bytes, \<open>c\<close> differing at offset 1.\<close>

definition three_files :: filesystem where
  "three_files = [''a'' \<mapsto> [1, 2, 3], ''b'' \<mapsto> [1, 2, 3], ''c'' \<mapsto> [1, 9, 3]]"

text \<open>The readable files among \<open>files\<close> have the same first \<open>a\<close> bytes.\<close>

definition prefix_agree :: "filesystem \<Rightarrow> path list \<Rightarrow> nat \<Rightarrow> bool" where
  "prefix_agree fs files a \<longleftrightarrow>
     (\<forall>p\<in>set files. \<forall>q\<in>set files. \<forall>c d. fs p = Some c \<and> fs q = Some d \<longrightarrow> take a c = take a d)"

text \<open>Four files: \<open>a\<close> and \<open>b\<close> with the same bytes, \<open>c\<close> and \<open>d\<close> with other bytes.\<close>

definition four_files :: filesystem where
  "four_files = [''a'' \<mapsto> [1, 2, 3], ''b'' \<mapsto> [1, 2, 3], ''c'' \<mapsto> [1, 9, 3], ''d'' \<mapsto> [1, 9, 3]]"

text \<open>
  The partitioner's recursion with a bound on the depth of the calls: \<open>None\<close> when a call
  would exceed the bound, otherwise what the call returns.
\<close>

fun GroupFilesByContentUsingMap_depth ::
  "nat \<Rightarrow> filesystem \<Rightarrow> path list \<Rightarrow> path list list \<times> msg list \<Rightarrow> int
     \<Rightarrow> (path list list \<times> msg list) option" where
  "GroupFilesByContentUsingMap_depth 0 fs files acc totalBytesRead = None"
| "GroupFilesByContentUsingMap_depth (Suc n) fs files acc totalBytesRead =
     (if length files < 2 then Some acc
      else
        let pivot = files ! 0 in
        case compare_batches fs pivot (tl files) 0 totalBytesRead ([], [pivot], snd acc) of
          (kg, duplicateGroup, out') \<Rightarrow>
            fold (\<lambda>entry r.
                    case r of
                      None \<Rightarrow> None
                    | Some acc' \<Rightarrow>
                        if length (snd entry) > 1
                        then GroupFilesByContentUsingMap_depth n fs (snd entry) acc' (fst (fst entry))
                        else Some acc')
                 kg
                 (Some (if length duplicateGroup > 1 then fst acc @ [duplicateGroup] else fst acc, out')))"

text \<open>Two files with the same bytes and a name that cannot be opened.\<close>

definition locked_files :: filesystem where
  "locked_files = [''a'' \<mapsto> [1, 2, 3], ''b'' \<mapsto> [1, 2, 3]]"

text \<open>The right-file state of a file with the bytes 1, 9, 3, opened at offset 0.\<close>

definition candidate_c :: RightFileState where
  "candidate_c = \<lparr>filePath = ''c'',
     stream = \<lparr>content = [1, 9, 3], pos = 0, eofbit = False, failbit = False\<rparr>\<rparr>"

text \<open>A pivot of three bytes and a file holding only its first two.\<close>

definition short_files :: filesystem where
  "short_files = [''a'' \<mapsto> [1, 2, 3], ''s'' \<mapsto> [1, 2]]"

definition candidate_s :: RightFileState where
  "candidate_s = \<lparr>filePath = ''s'',
     stream = \<lparr>content = [1, 2], pos = 0, eofbit = False, failbit = False\<rparr>\<rparr>"

text \<open>
  Two files of 4099 bytes, longer than one chunk, that differ only in their last byte
  (offset 4098, the third byte of the second chunk).
\<close>

definition two_chunk_files :: filesystem where
  "two_chunk_files = [''a'' \<mapsto> replicate 4098 0 @ [5], ''c'' \<mapsto> replicate 4098 0 @ [7]]"

text \<open>
  A volume with three files of their own storage, refusing to delete \<open>z\<close>.
\<close>

definition member_denied_world :: world where
  "member_denied_world =
     \<lparr>dir = [(''m'', (0, 7)), (''z'', (0, 8)), (''d'', (0, 9))], open_denied = (\<lambda>p. False),
      info_denied = (\<lambda>p. False), delete_denied = (\<lambda>p. p = ''z''), link_denied = (\<lambda>p. False),
      calls = [], console = []\<rparr>"

section \<open>Properties of the deduplicator\<close>

lemma same_volume_refl [simp]: "same_volume w w"
  by (simp add: same_volume_def)

lemma same_volume_trans: "same_volume a b \<Longrightarrow> same_volume b c \<Longrightarrow> same_volume a c"
  by (simp add: same_volume_def)

lemma same_volume_print [simp]:
  "same_volume w (print m w') = same_volume w w'"
  "same_volume (print m w) w' = same_volume w w'"
  by (simp_all add: same_volume_def print_def)

lemma calls_print [simp]: "calls (print m w) = calls w"
  by (simp add: print_def)

lemma dir_print [simp]: "dir (print m w) = dir w"
  by (simp add: print_def)

lemma console_print [simp]: "console (print m w) = console w @ [m]"
  by (simp add: print_def)

lemma identity_query:
  "same_volume w (snd (GetFileUniqueIdAndLinkCount p w)) \<and>
   filter mutating (calls (snd (GetFileUniqueIdAndLinkCount p w))) = filter mutating (calls w)"
  by (simp add: GetFileUniqueIdAndLinkCount_def CreateFileW_def GetFileInformationByHandle_def
      same_volume_def print_def split: option.splits bool.splits)

lemma LinkIdentity_same_volume:
  "same_volume w w' \<Longrightarrow> LinkIdentity w' p = LinkIdentity w p"
  by (simp add: LinkIdentity_def GetFileUniqueIdAndLinkCount_def CreateFileW_def
      GetFileInformationByHandle_def same_volume_def split: option.splits bool.splits)

lemma DeduplicateMember_linked:
  assumes "LinkIdentity w dupFile = Some (masterId, n)"
  shows "same_volume w (DeduplicateMember master masterId dupFile w) \<and>
         filter mutating (calls (DeduplicateMember master masterId dupFile w)) = filter mutating (calls w)"
proof -
  obtain w1 where q: "GetFileUniqueIdAndLinkCount dupFile w = (Some (masterId, n), w1)"
    using assms by (cases "GetFileUniqueIdAndLinkCount dupFile w") (simp add: LinkIdentity_def)
  then have "DeduplicateMember master masterId dupFile w = print (SkippingAlreadyLinked dupFile) w1"
    by (simp add: DeduplicateMember_def)
  with identity_query [where p = dupFile and w = w] q show ?thesis by simp
qed

lemma DeduplicateMember_unresolved:
  assumes "LinkIdentity w dupFile = None"
  shows "same_volume w (DeduplicateMember master masterId dupFile w) \<and>
         filter mutating (calls (DeduplicateMember master masterId dupFile w)) = filter mutating (calls w)"
proof -
  obtain w1 where q: "GetFileUniqueIdAndLinkCount dupFile w = (None, w1)"
    using assms by (cases "GetFileUniqueIdAndLinkCount dupFile w") (simp add: LinkIdentity_def)
  then have "DeduplicateMember master masterId dupFile w = print (FailedToGetUniqueIdForFile dupFile) w1"
    by (simp add: DeduplicateMember_def)
  with identity_query [where p = dupFile and w = w] q show ?thesis by simp
qed

lemma DeduplicateMembers_linked:
  assumes "\<forall>p\<in>set ps. \<exists>n. LinkIdentity w p = Some (masterId, n)"
  shows "same_volume w (DeduplicateMembers master masterId ps w) \<and>
         filter mutating (calls (DeduplicateMembers master masterId ps w)) = filter mutating (calls w)"
  using assms
proof (induction ps arbitrary: w)
  case Nil
  show ?case by simp
next
  case (Cons p ps)
  let ?w1 = "DeduplicateMember master masterId p w"
  from Cons.prems obtain n where "LinkIdentity w p = Some (masterId, n)" by auto
  from DeduplicateMember_linked [OF this, where master = master]
  have s: "same_volume w ?w1" and c: "filter mutating (calls ?w1) = filter mutating (calls w)"
    by simp_all
  from Cons.prems s have "\<forall>q\<in>set ps. \<exists>n. LinkIdentity ?w1 q = Some (masterId, n)"
    by (simp add: LinkIdentity_same_volume)
  from Cons.IH [OF this] s c show ?case
    by (auto intro: same_volume_trans)
qed

lemma DeduplicateGroup_linked:
  assumes "LinkIdentity w (duplicateGroup ! 0) = Some (masterId, masterLinks)"
    and "\<forall>p\<in>set (drop 1 duplicateGroup). \<exists>n. LinkIdentity w p = Some (masterId, n)"
  shows "fst (DeduplicateGroup duplicateGroup w) \<and>
         same_volume w (snd (DeduplicateGroup duplicateGroup w)) \<and>
         filter mutating (calls (snd (DeduplicateGroup duplicateGroup w))) = filter mutating (calls w)"
proof (cases "length duplicateGroup < 2")
  case True
  then show ?thesis by (simp add: DeduplicateGroup_def)
next
  case False
  let ?m = "duplicateGroup ! 0"
  obtain w1 where q: "GetFileUniqueIdAndLinkCount ?m w = (Some (masterId, masterLinks), w1)"
    using assms(1) by (cases "GetFileUniqueIdAndLinkCount ?m w") (simp add: LinkIdentity_def)
  let ?w2 = "print (MasterFile ?m) w1"
  from identity_query [where p = ?m and w = w] q
  have s: "same_volume w ?w2" and c: "filter mutating (calls ?w2) = filter mutating (calls w)"
    by simp_all
  from assms(2) s have "\<forall>p\<in>set (drop 1 duplicateGroup). \<exists>n. LinkIdentity ?w2 p = Some (masterId, n)"
    by (simp add: LinkIdentity_same_volume)
  from DeduplicateMembers_linked [OF this, where master = ?m] s c
  have "same_volume w (DeduplicateMembers ?m masterId (drop 1 duplicateGroup) ?w2) \<and>
        filter mutating (calls (DeduplicateMembers ?m masterId (drop 1 duplicateGroup) ?w2))
          = filter mutating (calls w)"
    by (auto intro: same_volume_trans)
  with False q show ?thesis
    by (simp add: DeduplicateGroup_def Let_def)
qed

text \<open>
  C7: a member whose identity query returns the master's unique id is skipped: the
  directory and the refusals are as before, and no delete or hard-link call is made.
  Consequently, on a group all of whose members return the master's unique id,
  \<open>DeduplicateGroup\<close> leaves the volume as it was and makes no delete or hard-link call.
\<close>

theorem already_linked_is_noop:
  "(LinkIdentity w dupFile = Some (masterId, n) \<longrightarrow>
      same_volume w (DeduplicateMember master masterId dupFile w) \<and>
      filter mutating (calls (DeduplicateMember master masterId dupFile w)) = filter mutating (calls w)) \<and>
   (LinkIdentity w (duplicateGroup ! 0) = Some (masterId, masterLinks) \<and>
    (\<forall>p\<in>set (drop 1 duplicateGroup). \<exists>n. LinkIdentity w p = Some (masterId, n)) \<longrightarrow>
      same_volume w (snd (DeduplicateGroup duplicateGroup w)) \<and>
      filter mutating (calls (snd (DeduplicateGroup duplicateGroup w))) = filter mutating (calls w))"
  using DeduplicateMember_linked DeduplicateGroup_linked by blast

lemma linked_world_identity:
  "LinkIdentity linked_world ''m'' = Some (7, 2)" "LinkIdentity linked_world ''l'' = Some (7, 2)"
  by (simp_all add: LinkIdentity_def linked_world_def GetFileUniqueIdAndLinkCount_def CreateFileW_def
      GetFileInformationByHandle_def)

theorem already_linked_is_noop_witness:
  "LinkIdentity linked_world ''l'' = Some (7, 2) \<and>
   LinkIdentity linked_world ([''m'', ''l''] ! 0) = Some (7, 2) \<and>
   drop 1 [''m'', ''l''] = [''l''] \<and>
   same_volume linked_world (DeduplicateMember ''m'' 7 ''l'' linked_world) \<and>
   filter mutating (calls (DeduplicateMember ''m'' 7 ''l'' linked_world)) = [] \<and>
   dir (snd (DeduplicateGroup [''m'', ''l''] linked_world)) = [(''m'', (0, 7)), (''l'', (0, 7))] \<and>
   filter mutating (calls (snd (DeduplicateGroup [''m'', ''l''] linked_world))) = []"
proof -
  have h: "LinkIdentity linked_world ''l'' = Some (7, 2)"
    "LinkIdentity linked_world ([''m'', ''l''] ! 0) = Some (7, 2)"
    "\<forall>p\<in>set (drop 1 [''m'', ''l'']). \<exists>n. LinkIdentity linked_world p = Some (7, n)"
    by (simp_all add: linked_world_identity)
  from already_linked_is_noop [of linked_world "''l''" 7 2 "''m''" "[''m'', ''l'']" 2] h
  have "same_volume linked_world (DeduplicateMember ''m'' 7 ''l'' linked_world)"
    "filter mutating (calls (DeduplicateMember ''m'' 7 ''l'' linked_world)) = filter mutating (calls linked_world)"
    "same_volume linked_world (snd (DeduplicateGroup [''m'', ''l''] linked_world))"
    "filter mutating (calls (snd (DeduplicateGroup [''m'', ''l''] linked_world))) = filter mutating (calls linked_world)"
    by blast+
  with h show ?thesis
    by (simp add: same_volume_def linked_world_def)
qed

lemma query_cases:
  obtains w1 where "GetFileUniqueIdAndLinkCount p w = (None, w1)" "LinkIdentity w p = None"
  | w1 idx n where "GetFileUniqueIdAndLinkCount p w = (Some (uniqueId_of idx, n), w1)"
      "map_of (dir w) p = Some idx" "LinkIdentity w p = Some (uniqueId_of idx, n)"
  by (cases "GetFileUniqueIdAndLinkCount p w")
    (auto simp: LinkIdentity_def GetFileUniqueIdAndLinkCount_def CreateFileW_def
      GetFileInformationByHandle_def uniqueId_of_def split: option.splits bool.splits if_splits)

lemma query_effect:
  assumes "GetFileUniqueIdAndLinkCount p w = (r, w1)"
  shows "dir w1 = dir w" and "\<exists>new. calls w1 = calls w @ new \<and> (\<forall>c\<in>set new. \<not> mutating c)"
  using assms
  by (auto simp: GetFileUniqueIdAndLinkCount_def CreateFileW_def
      GetFileInformationByHandle_def print_def split: option.splits bool.splits if_splits)

lemma map_of_remove_other:
  "q \<noteq> p \<Longrightarrow> map_of (filter (\<lambda>e. fst e \<noteq> p) xs) q = map_of xs q"
  by (induction xs) auto

lemma DeleteFileW_effect:
  assumes "DeleteFileW p w = (b, w1)"
  shows "calls w1 = calls w @ [CallDeleteFile p]" and "q \<noteq> p \<Longrightarrow> map_of (dir w1) q = map_of (dir w) q"
  using assms
  by (auto simp: DeleteFileW_def Let_def map_of_remove_other split: if_splits)

lemma CreateHardLinkW_effect:
  assumes "CreateHardLinkW p m w = (b, w1)"
  shows "calls w1 = calls w @ [CallCreateHardLink p m]" and "q \<noteq> p \<Longrightarrow> map_of (dir w1) q = map_of (dir w) q"
  using assms
  by (auto simp: CreateHardLinkW_def Let_def map_add_def split: if_splits option.splits)

lemma touches_mutating: "touches c q \<Longrightarrow> mutating c"
  by (cases c) auto

lemma DeduplicateMember_frame:
  assumes "map_of (dir w) master = Some idx"
  shows "map_of (dir (DeduplicateMember master (uniqueId_of idx) dupFile w)) master = Some idx \<and>
         (\<exists>new. calls (DeduplicateMember master (uniqueId_of idx) dupFile w) = calls w @ new \<and>
            (\<forall>c\<in>set new. \<not> touches c master \<and> (mutating c \<longrightarrow> touches c dupFile)))"
proof (cases "dupFile = master")
  case True
  show ?thesis
  proof (cases rule: query_cases [of dupFile w])
    case (1 w1)
    with query_effect [OF 1(1)] assms show ?thesis
      by (auto simp: DeduplicateMember_def dest: touches_mutating)
  next
    case (2 w1 idx' n)
    with True assms have "idx' = idx" by simp
    with 2 query_effect [OF 2(1)] assms show ?thesis
      by (auto simp: DeduplicateMember_def dest: touches_mutating)
  qed
next
  case False
  show ?thesis
  proof (cases rule: query_cases [of dupFile w])
    case (1 w1)
    with query_effect [OF 1(1)] assms show ?thesis
      by (auto simp: DeduplicateMember_def dest: touches_mutating)
  next
    case (2 w1 idx' n)
    note q = query_effect [OF 2(1)]
    show ?thesis
    proof (cases "uniqueId_of idx' = uniqueId_of idx")
      case True
      with 2 q assms show ?thesis
        by (auto simp: DeduplicateMember_def dest: touches_mutating)
    next
      case ne: False
      obtain b w2 where d: "DeleteFileW dupFile w1 = (b, w2)"
        by (cases "DeleteFileW dupFile w1")
      note de = DeleteFileW_effect [OF d]
      obtain b' w3 where l: "CreateHardLinkW dupFile master w2 = (b', w3)"
        by (cases "CreateHardLinkW dupFile master w2")
      note le = CreateHardLinkW_effect [OF l]
      from False have m: "master \<noteq> dupFile" by simp
      have dirs: "map_of (dir w2) master = Some idx" "map_of (dir w3) master = Some idx"
        using de(2) [OF m] le(2) [OF m] q(1) assms by simp_all
      from q(2) obtain new where new: "calls w1 = calls w @ new" "\<forall>c\<in>set new. \<not> mutating c"
        by blast
      have c2: "calls w2 = calls w @ (new @ [CallDeleteFile dupFile])"
        using de(1) new(1) by simp
      have c3: "calls w3 = calls w @ (new @ [CallDeleteFile dupFile, CallCreateHardLink dupFile master])"
        using le(1) c2 by simp
      have ok2: "\<forall>c\<in>set (new @ [CallDeleteFile dupFile]).
                   \<not> touches c master \<and> (mutating c \<longrightarrow> touches c dupFile)"
        using new(2) False by (auto dest: touches_mutating)
      have ok3: "\<forall>c\<in>set (new @ [CallDeleteFile dupFile, CallCreateHardLink dupFile master]).
                   \<not> touches c master \<and> (mutating c \<longrightarrow> touches c dupFile)"
        using new(2) False by (auto dest: touches_mutating)
      have "DeduplicateMember master (uniqueId_of idx) dupFile w =
              (if b then if b' then print (ReplacedDuplicate dupFile master) w3
                         else print (ErrorCreatingHardLink dupFile master) w3
               else print (ErrorDeletingDuplicate dupFile) w2)"
        using 2(1) ne d l by (simp add: DeduplicateMember_def split: bool.splits)
      with dirs c2 c3 ok2 ok3 show ?thesis
        by (cases b; cases b') (simp_all; blast)+
    qed
  qed
qed

lemma DeduplicateMembers_frame:
  assumes "map_of (dir w) master = Some idx"
  shows "map_of (dir (DeduplicateMembers master (uniqueId_of idx) ps w)) master = Some idx \<and>
         (\<exists>new. calls (DeduplicateMembers master (uniqueId_of idx) ps w) = calls w @ new \<and>
            (\<forall>c\<in>set new. \<not> touches c master \<and> (mutating c \<longrightarrow> (\<exists>p\<in>set ps. touches c p))))"
  using assms
proof (induction ps arbitrary: w)
  case Nil
  then show ?case by simp
next
  case (Cons p ps)
  let ?w1 = "DeduplicateMember master (uniqueId_of idx) p w"
  from DeduplicateMember_frame [OF Cons.prems, of p]
  obtain new1 where 1: "map_of (dir ?w1) master = Some idx" "calls ?w1 = calls w @ new1"
    "\<forall>c\<in>set new1. \<not> touches c master \<and> (mutating c \<longrightarrow> touches c p)"
    by blast
  from Cons.IH [OF 1(1)]
  obtain new2 where 2: "map_of (dir (DeduplicateMembers master (uniqueId_of idx) ps ?w1)) master = Some idx"
    "calls (DeduplicateMembers master (uniqueId_of idx) ps ?w1) = calls ?w1 @ new2"
    "\<forall>c\<in>set new2. \<not> touches c master \<and> (mutating c \<longrightarrow> (\<exists>p\<in>set ps. touches c p))"
    by blast
  have "calls (DeduplicateMembers master (uniqueId_of idx) (p # ps) w) = calls w @ (new1 @ new2)"
    using 1(2) 2(2) by simp
  moreover have "\<forall>c\<in>set (new1 @ new2). \<not> touches c master \<and>
                   (mutating c \<longrightarrow> (\<exists>q\<in>set (p # ps). touches c q))"
    using 1(3) 2(3) by auto
  ultimately show ?case using 2(1) by (simp del: set_append)
qed

lemma DeduplicateGroup_frame:
  "map_of (dir (snd (DeduplicateGroup g w))) (g ! 0) = map_of (dir w) (g ! 0) \<and>
   (\<exists>new. calls (snd (DeduplicateGroup g w)) = calls w @ new \<and>
      (\<forall>c\<in>set new. \<not> touches c (g ! 0) \<and> (mutating c \<longrightarrow> (\<exists>p\<in>set (drop 1 g). touches c p))))"
proof (cases "length g < 2")
  case True
  then show ?thesis by (simp add: DeduplicateGroup_def)
next
  case False
  let ?m = "g ! 0"
  show ?thesis
  proof (cases rule: query_cases [of ?m w])
    case (1 w1)
    with False query_effect [OF 1(1)] show ?thesis
      by (auto simp: DeduplicateGroup_def dest: touches_mutating)
  next
    case (2 w1 idx n)
    let ?w2 = "print (MasterFile ?m) w1"
    let ?w3 = "DeduplicateMembers ?m (uniqueId_of idx) (drop 1 g) ?w2"
    note q = query_effect [OF 2(1)]
    from q(2) obtain new1 where new1: "calls w1 = calls w @ new1" "\<forall>c\<in>set new1. \<not> mutating c"
      by blast
    have "map_of (dir ?w2) ?m = Some idx" using q(1) 2(2) by simp
    from DeduplicateMembers_frame [OF this, of "drop 1 g"]
    obtain new2 where new2: "map_of (dir ?w3) ?m = Some idx" "calls ?w3 = calls ?w2 @ new2"
      "\<forall>c\<in>set new2. \<not> touches c ?m \<and> (mutating c \<longrightarrow> (\<exists>p\<in>set (drop 1 g). touches c p))"
      by blast
    have r: "snd (DeduplicateGroup g w) = ?w3"
      using False 2(1) by (simp add: DeduplicateGroup_def Let_def)
    have "calls ?w3 = calls w @ (new1 @ new2)"
      using new1(1) new2(2) by simp
    moreover have "\<forall>c\<in>set (new1 @ new2). \<not> touches c ?m \<and>
                     (mutating c \<longrightarrow> (\<exists>p\<in>set (drop 1 g). touches c p))"
      using new1(2) new2(3) by (auto dest: touches_mutating)
    ultimately show ?thesis using new2(1) 2(2) r by (simp del: set_append)
  qed
qed

lemma LinkIdentity_print [simp]: "LinkIdentity (print m w) p = LinkIdentity w p"
  by (rule LinkIdentity_same_volume) simp

lemma DeduplicateGroup_ok:
  "fst (DeduplicateGroup g w) \<longleftrightarrow> length g < 2 \<or> LinkIdentity w (g ! 0) \<noteq> None"
  by (cases rule: query_cases [of "g ! 0" w])
     (auto simp: DeduplicateGroup_def Let_def)

lemma DeduplicateGroup_abort:
  assumes "2 \<le> length g" and "LinkIdentity w (g ! 0) = None"
  shows "\<not> fst (DeduplicateGroup g w)"
    and "same_volume w (snd (DeduplicateGroup g w))"
    and "\<exists>new. calls (snd (DeduplicateGroup g w)) = calls w @ new \<and>
           set new \<subseteq> {CallCreateFile (g ! 0), CallGetFileInformationByHandle (g ! 0)}"
    and "\<exists>old. console (snd (DeduplicateGroup g w)) = old @ [FailedToGetUniqueIdForMaster (g ! 0)]"
  using assms
  by (auto simp: DeduplicateGroup_def Let_def LinkIdentity_def GetFileUniqueIdAndLinkCount_def
      CreateFileW_def GetFileInformationByHandle_def same_volume_def print_def
      split: option.splits bool.splits if_splits)

lemma deduplicate_all_append:
  "fst (deduplicate_all pre w) = 0 \<Longrightarrow>
   deduplicate_all (pre @ gs) w = deduplicate_all gs (snd (deduplicate_all pre w))"
proof (induction pre arbitrary: w)
  case Nil
  show ?case by simp
next
  case (Cons g pre)
  obtain b w1 where d: "DeduplicateGroup g (print Star w) = (b, w1)"
    by (cases "DeduplicateGroup g (print Star w)")
  with Cons.prems have b by (cases b) auto
  with d Cons.prems have "fst (deduplicate_all pre w1) = 0" by simp
  from Cons.IH [OF this] d \<open>b\<close> show ?case by simp
qed

lemma deduplicate_all_fails:
  assumes "fst (deduplicate_all pre w) = 0" and "2 \<le> length g"
    and "LinkIdentity (snd (deduplicate_all pre w)) (g ! 0) = None"
  shows "fst (deduplicate_all (pre @ g # rest) w) = 1"
proof -
  let ?w1 = "snd (deduplicate_all pre w)"
  have "\<not> fst (DeduplicateGroup g (print Star ?w1))"
    using assms(2,3) by (simp add: DeduplicateGroup_ok)
  then have "fst (deduplicate_all (g # rest) ?w1) = 1"
    by (cases "DeduplicateGroup g (print Star ?w1)") auto
  with deduplicate_all_append [OF assms(1)] show ?thesis by simp
qed

lemma deduplicate_all_exit:
  "fst (deduplicate_all gs w) = 0 \<or> fst (deduplicate_all gs w) = 1"
proof (induction gs arbitrary: w)
  case Nil
  show ?case by simp
next
  case (Cons g gs)
  obtain b w1 where d: "DeduplicateGroup g (print Star w) = (b, w1)"
    by (cases "DeduplicateGroup g (print Star w)")
  with Cons.IH [of w1] show ?case by (cases b) auto
qed

lemma deduplicate_all_only_master:
  assumes "fst (deduplicate_all gs w) = 1"
  shows "\<exists>pre g rest. gs = pre @ g # rest \<and> fst (deduplicate_all pre w) = 0 \<and> 2 \<le> length g \<and>
           LinkIdentity (snd (deduplicate_all pre w)) (g ! 0) = None"
  using assms
proof (induction gs arbitrary: w)
  case Nil
  then show ?case by simp
next
  case (Cons g gs)
  obtain b w1 where d: "DeduplicateGroup g (print Star w) = (b, w1)"
    by (cases "DeduplicateGroup g (print Star w)")
  show ?case
  proof (cases b)
    case False
    with d have "\<not> fst (DeduplicateGroup g (print Star w))" by simp
    then have "2 \<le> length g" "LinkIdentity w (g ! 0) = None"
      by (cases "LinkIdentity w (g ! 0)"; simp add: DeduplicateGroup_ok)+
    then have "g # gs = [] @ g # gs \<and> fst (deduplicate_all [] w) = 0 \<and> 2 \<le> length g \<and>
               LinkIdentity (snd (deduplicate_all [] w)) (g ! 0) = None"
      by simp
    then show ?thesis by blast
  next
    case True
    with d Cons.prems have "fst (deduplicate_all gs w1) = 1" by simp
    from Cons.IH [OF this] obtain pre g' rest where
      p: "gs = pre @ g' # rest" "fst (deduplicate_all pre w1) = 0" "2 \<le> length g'"
         "LinkIdentity (snd (deduplicate_all pre w1)) (g' ! 0) = None"
      by blast
    from d True have "deduplicate_all (g # pre) w = deduplicate_all pre w1" by simp
    with p have "g # gs = (g # pre) @ g' # rest \<and> fst (deduplicate_all (g # pre) w) = 0 \<and> 2 \<le> length g' \<and>
               LinkIdentity (snd (deduplicate_all (g # pre) w)) (g' ! 0) = None"
      by simp
    then show ?thesis by blast
  qed
qed

lemma master_failure_facts:
  "(2 \<le> length g \<and> LinkIdentity w (g ! 0) = None \<longrightarrow>
      \<not> fst (DeduplicateGroup g w) \<and> same_volume w (snd (DeduplicateGroup g w)) \<and>
      (\<exists>new. calls (snd (DeduplicateGroup g w)) = calls w @ new \<and>
         set new \<subseteq> {CallCreateFile (g ! 0), CallGetFileInformationByHandle (g ! 0)}) \<and>
      (\<exists>old. console (snd (DeduplicateGroup g w)) = old @ [FailedToGetUniqueIdForMaster (g ! 0)])) \<and>
   (2 \<le> argc \<and> group_by_content fs sizeGroups ([], w0) = (pre @ g # rest, w1) \<and>
    fst (deduplicate_all pre w1) = 0 \<and> 2 \<le> length g \<and>
    LinkIdentity (snd (deduplicate_all pre w1)) (g ! 0) = None \<longrightarrow>
      fst (wmain argc sizeGroups fs w0) = 1) \<and>
   (fst (DeduplicateGroup g w) \<longleftrightarrow> length g < 2 \<or> LinkIdentity w (g ! 0) \<noteq> None) \<and>
   (fst (deduplicate_all gs w) = 1 \<longrightarrow>
      (\<exists>pre g rest. gs = pre @ g # rest \<and> fst (deduplicate_all pre w) = 0 \<and> 2 \<le> length g \<and>
         LinkIdentity (snd (deduplicate_all pre w)) (g ! 0) = None))"
proof (intro conjI impI)
  assume a: "2 \<le> argc \<and> group_by_content fs sizeGroups ([], w0) = (pre @ g # rest, w1) \<and>
    fst (deduplicate_all pre w1) = 0 \<and> 2 \<le> length g \<and>
    LinkIdentity (snd (deduplicate_all pre w1)) (g ! 0) = None"
  then have "fst (deduplicate_all (pre @ g # rest) w1) = 1"
    by (simp add: deduplicate_all_fails)
  with a show "fst (wmain argc sizeGroups fs w0) = 1"
    by (simp add: wmain_def)
next
  show "fst (DeduplicateGroup g w) \<longleftrightarrow> length g < 2 \<or> LinkIdentity w (g ! 0) \<noteq> None"
    by (rule DeduplicateGroup_ok)
qed (use DeduplicateGroup_abort deduplicate_all_only_master in blast)+

text \<open>
  C6: \<open>DeduplicateGroup\<close> leaves the directory entry of the master (the first element)
  as it was; no call it makes deletes or creates the master's name, and every delete and
  hard-link call is on the name of a member at position 1 or later.
\<close>

theorem master_untouched:
  "map_of (dir (snd (DeduplicateGroup duplicateGroup w))) (duplicateGroup ! 0) =
     map_of (dir w) (duplicateGroup ! 0) \<and>
   (\<exists>new. calls (snd (DeduplicateGroup duplicateGroup w)) = calls w @ new \<and>
      (\<forall>c\<in>set new. \<not> touches c (duplicateGroup ! 0) \<and>
         (mutating c \<longrightarrow> (\<exists>p\<in>set (drop 1 duplicateGroup). touches c p))))"
  by (rule DeduplicateGroup_frame)

theorem master_untouched_witness:
  "calls (snd (DeduplicateGroup [''m'', ''d''] unlinked_world)) =
     [CallCreateFile ''m'', CallGetFileInformationByHandle ''m'',
      CallCreateFile ''d'', CallGetFileInformationByHandle ''d'',
      CallDeleteFile ''d'', CallCreateHardLink ''d'' ''m''] \<and>
   \<not> touches (CallDeleteFile ''d'') ''m'' \<and> \<not> touches (CallCreateHardLink ''d'' ''m'') ''m'' \<and>
   touches (CallDeleteFile ''d'') ''d'' \<and> touches (CallCreateHardLink ''d'' ''m'') ''d'' \<and>
   drop 1 [''m'', ''d''] = [''d''] \<and>
   map_of (dir (snd (DeduplicateGroup [''m'', ''d''] unlinked_world))) ''m'' = Some (0, 7) \<and>
   map_of (dir (snd (DeduplicateGroup [''m'', ''d''] unlinked_world))) ''d'' = Some (0, 7)"
  using master_untouched [of "[''m'', ''d'']" unlinked_world]
  by (simp add: DeduplicateGroup_def unlinked_world_def GetFileUniqueIdAndLinkCount_def CreateFileW_def
      GetFileInformationByHandle_def DeduplicateMember_def DeleteFileW_def CreateHardLinkW_def print_def Let_def)

section \<open>Properties of the comparator\<close>

lemma mismatchIndex_first:
  "length xs = length ys \<Longrightarrow> xs \<noteq> ys \<Longrightarrow>
   mismatchIndex xs ys < length xs \<and>
   take (mismatchIndex xs ys) xs = take (mismatchIndex xs ys) ys \<and>
   xs ! mismatchIndex xs ys \<noteq> ys ! mismatchIndex xs ys"
  by (induction xs ys rule: list_induct2) auto

lemma agree_between_extend:
  assumes "agree_between a q c m" and "a \<le> q" and "take n (drop q c) = take n (drop q m)"
  shows "agree_between a (q + n) c m"
proof -
  have "take (q + n - a) (drop a c) = take (q - a) (drop a c) @ take n (drop (q - a) (drop a c))"
    using assms(2) by (metis Nat.add_diff_assoc2 take_add)
  moreover have "take (q + n - a) (drop a m) = take (q - a) (drop a m) @ take n (drop (q - a) (drop a m))"
    using assms(2) by (metis Nat.add_diff_assoc2 take_add)
  ultimately show ?thesis
    using assms by (simp add: agree_between_def)
qed

lemma agree_between_self [simp]: "agree_between a a c m"
  by (simp add: agree_between_def)

lemma keyGroups_push_set:
  "e \<in> set (keyGroups_push k p kg) \<Longrightarrow>
   e \<in> set kg \<or> (fst e = k \<and> (\<exists>ps. snd e = ps @ [p] \<and> (ps = [] \<or> (k, ps) \<in> set kg)))"
  by (induction kg) (auto split: if_splits)

lemma buckets_diverge_push:
  assumes "buckets_diverge fs m a kg" and "fs p = Some c" and "diverges_at a m c k"
  shows "buckets_diverge fs m a (keyGroups_push k p kg)"
  unfolding buckets_diverge_def
proof (intro ballI conjI)
  fix e assume e: "e \<in> set (keyGroups_push k p kg)"
  from keyGroups_push_set [OF e] assms(1) show "snd e \<noteq> []"
    by (auto simp: buckets_diverge_def)
next
  fix e p' assume e: "e \<in> set (keyGroups_push k p kg)" and p': "p' \<in> set (snd e)"
  from keyGroups_push_set [OF e] show "\<exists>c. fs p' = Some c \<and> diverges_at a m c (fst e)"
  proof
    assume "e \<in> set kg"
    with assms(1) p' show ?thesis by (auto simp: buckets_diverge_def)
  next
    assume "fst e = k \<and> (\<exists>ps. snd e = ps @ [p] \<and> (ps = [] \<or> (k, ps) \<in> set kg))"
    then obtain ps where ps: "fst e = k" "snd e = ps @ [p]" "ps = [] \<or> (k, ps) \<in> set kg"
      by blast
    show ?thesis
    proof (cases "p' = p")
      case True
      with assms ps show ?thesis by auto
    next
      case False
      with p' ps have "p' \<in> set ps" "(k, ps) \<in> set kg" by auto
      with assms(1) ps(1) show ?thesis by (force simp: buckets_diverge_def)
    qed
  qed
qed

lemma compare_right_good:
  assumes "\<not> eofbit s" and "\<not> failbit s"
  shows "compare_right mb t s =
     (if length (take (length mb) (drop (pos s) (content s))) \<noteq> length mb then ShortRead
      else if mb \<noteq> take (length mb) (drop (pos s) (content s)) then
        Mismatch (t + int (mismatchIndex mb (take (length mb) (drop (pos s) (content s)))),
                  take (length mb) (drop (pos s) (content s)) !
                    mismatchIndex mb (take (length mb) (drop (pos s) (content s))))
      else Match (s\<lparr>pos := pos s + length mb\<rparr>))"
  using assms by (simp add: compare_right_def ifstream_read_def Let_def)

lemma chunk_nth:
  assumes "take (length b) (drop q xs) = b" and "i < length b"
  shows "b ! i = xs ! (q + i)" and "q + i < length xs" and "take i (drop q xs) = take i b"
proof -
  have "length (take (length b) (drop q xs)) = length b" using assms(1) by simp
  then have l: "length b \<le> length xs - q" by simp
  with assms(2) show "q + i < length xs" by simp
  have "b ! i = take (length b) (drop q xs) ! i" using assms(1) by simp
  also have "\<dots> = drop q xs ! i" using assms(2) by simp
  also have "\<dots> = xs ! (q + i)" using l assms(2) by simp
  finally show "b ! i = xs ! (q + i)" .
  have "take i b = take i (take (length b) (drop q xs))" using assms(1) by simp
  also have "\<dots> = take i (drop q xs)" using assms(2) by (simp add: min_def)
  finally show "take i (drop q xs) = take i b" by simp
qed

lemma compare_right_Match:
  assumes "compare_right mb t (stream st) = Match s'" and "in_step fs m a q st"
    and "take (length mb) (drop q m) = mb" and "a \<le> q"
  shows "in_step fs m a (q + length mb) (st\<lparr>stream := s'\<rparr>)"
proof -
  let ?c = "content (stream st)"
  let ?rb = "take (length mb) (drop q ?c)"
  from assms(2) have good: "\<not> eofbit (stream st)" "\<not> failbit (stream st)" "pos (stream st) = q"
    by (simp_all add: in_step_def)
  from assms(1) good have rb: "?rb = mb"
    by (simp add: compare_right_good split: if_splits)
  from assms(1) good have s': "s' = (stream st)\<lparr>pos := q + length mb\<rparr>"
    by (simp add: compare_right_good split: if_splits)
  from rb assms(3) have "take (length mb) (drop q ?c) = take (length mb) (drop q m)" by simp
  from agree_between_extend [OF _ assms(4) this] assms(2)
  have "agree_between a (q + length mb) ?c m" by (simp add: in_step_def)
  with assms(2) good s' show ?thesis by (simp add: in_step_def)
qed

lemma compare_right_Mismatch:
  assumes "compare_right mb (int q) (stream st) = Mismatch k" and "in_step fs m a q st"
    and "take (length mb) (drop q m) = mb" and "a \<le> q"
  shows "diverges_at a m (content (stream st)) k"
proof -
  let ?c = "content (stream st)"
  define rb where "rb = take (length mb) (drop q ?c)"
  define i where "i = mismatchIndex mb rb"
  from assms(2) have good: "\<not> eofbit (stream st)" "\<not> failbit (stream st)" "pos (stream st) = q"
    by (simp_all add: in_step_def)
  from assms(1) good have len: "length rb = length mb"
    unfolding rb_def by (simp add: compare_right_good split: if_splits)
  from assms(1) good have ne: "mb \<noteq> rb"
    unfolding rb_def by (simp add: compare_right_good split: if_splits)
  from assms(1) good have k: "k = (int q + int i, rb ! i)"
    unfolding i_def rb_def by (simp add: compare_right_good split: if_splits)
  from mismatchIndex_first [OF len [symmetric] ne]
  have i: "i < length mb" "take i mb = take i rb" "mb ! i \<noteq> rb ! i"
    unfolding i_def by blast+
  have rbp: "take (length rb) (drop q ?c) = rb" using len by (simp add: rb_def)
  from i(1) len have i': "i < length rb" by simp
  note cm = chunk_nth [OF assms(3) i(1)]
  note cc = chunk_nth [OF rbp i']
  have "take i (drop q ?c) = take i (drop q m)" using cm(3) cc(3) i(2) by simp
  from agree_between_extend [OF _ assms(4) this] assms(2)
  have "agree_between a (q + i) ?c m" by (simp add: in_step_def)
  moreover have "nat (fst k) = q + i" using k by (simp add: nat_add_distrib)
  moreover have "snd k = rb ! i" using k by simp
  moreover have "int a \<le> fst k" using k assms(4) by simp
  ultimately show ?thesis using cm(1,2) cc(1,2) i(3)
    by (simp add: diverges_at_def)
qed

lemma compare_chunk_sound:
  assumes "compare_chunk mb (int q) rs kg = (rs', kg')"
    and "\<forall>st\<in>set rs. in_step fs m a q st" and "buckets_diverge fs m a kg"
    and "take (length mb) (drop q m) = mb" and "a \<le> q"
  shows "(\<forall>st\<in>set rs'. in_step fs m a (q + length mb) st) \<and> buckets_diverge fs m a kg'"
  using assms(1-3)
proof (induction rs arbitrary: kg rs' kg')
  case Nil
  then show ?case by simp
next
  case (Cons st rest)
  from Cons.prems(2) have st: "in_step fs m a q st" and rest: "\<forall>st\<in>set rest. in_step fs m a q st"
    by simp_all
  show ?case
  proof (cases "compare_right mb (int q) (stream st)")
    case ShortRead
    with Cons.prems have "compare_chunk mb (int q) rest kg = (rs', kg')" by simp
    from Cons.IH [OF this rest Cons.prems(3)] show ?thesis .
  next
    case (Mismatch key)
    with Cons.prems have c: "compare_chunk mb (int q) rest (keyGroups_push key (filePath st) kg) = (rs', kg')"
      by simp
    from compare_right_Mismatch [OF Mismatch st assms(4,5)] st
    have "buckets_diverge fs m a (keyGroups_push key (filePath st) kg)"
      by (intro buckets_diverge_push [OF Cons.prems(3)]) (auto simp: in_step_def)
    from Cons.IH [OF c rest this] show ?thesis .
  next
    case (Match s')
    obtain rs1 kg1 where r: "compare_chunk mb (int q) rest kg = (rs1, kg1)"
      by (cases "compare_chunk mb (int q) rest kg")
    with Match Cons.prems have e: "rs' = st\<lparr>stream := s'\<rparr> # rs1" "kg' = kg1" by auto
    from Cons.IH [OF r rest Cons.prems(3)] compare_right_Match [OF Match st assms(4,5)] e
    show ?thesis by simp
  qed
qed

lemma master_read:
  assumes "ifstream_read M n = (M', mb)"
  shows "content M' = content M"
    and "mb \<noteq> [] \<Longrightarrow> \<not> eofbit M \<and> \<not> failbit M \<and> take (length mb) (drop (pos M) (content M)) = mb \<and>
           pos M' = pos M + length mb \<and>
           ((\<not> eofbit M' \<and> \<not> failbit M') \<or> length (content M) \<le> pos M')"
    and "mb = [] \<Longrightarrow> \<not> eofbit M \<Longrightarrow> \<not> failbit M \<Longrightarrow> 0 < n \<Longrightarrow> length (content M) \<le> pos M"
  using assms
  by (auto simp: ifstream_read_def Let_def min_def split: if_splits)

lemma in_step_end:
  assumes "in_step fs m a q st" and "eofbit (ifstream_peek (stream st))"
    and "length m \<le> q"
  shows "survives fs m a (filePath st)"
proof -
  let ?c = "content (stream st)"
  from assms(1,2) have "length ?c \<le> q"
    by (auto simp: in_step_def ifstream_peek_def split: if_splits)
  with assms(1,3) have "drop a ?c = drop a m"
    by (simp add: in_step_def agree_between_def)
  with assms(1) show ?thesis by (auto simp: in_step_def survives_def)
qed

lemma compare_chunks_sound:
  assumes "compare_chunks M rs t kg = (rs', kg')"
    and "content M = m"
    and "(\<not> eofbit M \<and> \<not> failbit M \<and> t = int (pos M)) \<or> length m \<le> pos M"
    and "a \<le> pos M"
    and "\<forall>st\<in>set rs. in_step fs m a (pos M) st"
    and "buckets_diverge fs m a kg"
  shows "buckets_diverge fs m a kg' \<and>
         (\<forall>st\<in>set rs'. eofbit (ifstream_peek (stream st)) \<longrightarrow> survives fs m a (filePath st))"
  using assms
proof (induction M rs t kg arbitrary: rs' kg' rule: compare_chunks.induct)
  case (1 M rs t kg)
  obtain M1 mb where rd: "ifstream_read M BUFFER_SIZE = (M1, mb)"
    by (cases "ifstream_read M BUFFER_SIZE")
  note mr = master_read [OF rd]
  show ?case
  proof (cases "mb = []")
    case True
    with rd "1.prems"(1) have res: "rs' = rs" "kg' = kg"
      by (simp_all add: compare_chunks.simps [of M])
    have "length m \<le> pos M"
      using "1.prems"(2,3) mr(3) [OF True] by (auto simp: BUFFER_SIZE_def)
    with "1.prems"(5,6) res show ?thesis
      by (auto intro: in_step_end)
  next
    case False
    from mr(2) [OF False] "1.prems"(2)
    have good: "\<not> eofbit M" "\<not> failbit M" and chunk: "take (length mb) (drop (pos M) m) = mb"
      and pos1: "pos M1 = pos M + length mb"
      and M1: "(\<not> eofbit M1 \<and> \<not> failbit M1) \<or> length m \<le> pos M1"
      by auto
    have lt: "pos M < length m"
    proof (rule ccontr)
      assume "\<not> pos M < length m"
      then have "take (length mb) (drop (pos M) m) = []" by simp
      with chunk False show False by simp
    qed
    with "1.prems"(3) have t: "t = int (pos M)" by auto
    obtain rs1 kg1 where cc: "compare_chunk mb t rs kg = (rs1, kg1)"
      by (cases "compare_chunk mb t rs kg")
    from compare_chunk_sound [OF cc [unfolded t] "1.prems"(5,6) chunk "1.prems"(4)]
    have step: "\<forall>st\<in>set rs1. in_step fs m a (pos M + length mb) st" "buckets_diverge fs m a kg1"
      by simp_all
    show ?thesis
    proof (cases "rs1 = []")
      case True
      with rd False cc "1.prems"(1) step show ?thesis
        by (simp add: compare_chunks.simps [of M])
    next
      case ne: False
      with rd False cc "1.prems"(1)
      have r: "compare_chunks M1 rs1 (t + int (length mb)) kg1 = (rs', kg')"
        by (simp add: compare_chunks.simps [of M])
      have c1: "content M1 = m" using mr(1) "1.prems"(2) by simp
      have m1: "(\<not> eofbit M1 \<and> \<not> failbit M1 \<and> t + int (length mb) = int (pos M1)) \<or> length m \<le> pos M1"
        using M1 t pos1 by auto
      have a1: "a \<le> pos M1" using pos1 "1.prems"(4) by simp
      from False have nz: "\<not> length mb \<le> 0" by simp
      from "1.IH" [OF rd [symmetric] nz cc [symmetric] ne r c1 m1 a1] step pos1
      show ?thesis by simp
    qed
  qed
qed

lemma failbit_open [simp]: "failbit (ifstream_open fs p) \<longleftrightarrow> fs p = None"
  by (simp add: ifstream_open_def split: option.splits)

lemma open_right_files_eq:
  "open_right_files fs ps t out =
     (map (\<lambda>p. \<lparr>filePath = p, stream = seekg (ifstream_open fs p) t\<rparr>) (filter (\<lambda>p. fs p \<noteq> None) ps),
      out @ map ErrorOpeningRightFile (filter (\<lambda>p. fs p = None) ps))"
  by (induction ps arbitrary: out) (auto simp: Let_def)

lemma opened_in_step:
  assumes "fs p = Some c" and "0 \<le> t"
  shows "in_step fs m (nat t) (nat t) \<lparr>filePath = p, stream = seekg (ifstream_open fs p) t\<rparr>"
  using assms by (simp add: in_step_def seekg_def ifstream_open_def Let_def)

lemma opened_master:
  assumes "fs p = Some m" and "0 \<le> t"
  shows "content (seekg (ifstream_open fs p) t) = m" and "pos (seekg (ifstream_open fs p) t) = nat t"
    and "\<not> eofbit (seekg (ifstream_open fs p) t)" and "\<not> failbit (seekg (ifstream_open fs p) t)"
  using assms by (simp_all add: seekg_def ifstream_open_def Let_def)

lemma negative_seek:
  assumes "t < 0"
  shows "failbit (seekg s t)" and "\<not> eofbit (seekg s t)"
  using assms by (simp_all add: seekg_def Let_def)

lemma compare_chunks_failed_master:
  "failbit M \<Longrightarrow> compare_chunks M rs t kg = (rs, kg)"
  by (simp add: compare_chunks.simps [of M] ifstream_read_def)

lemma end_check_failed:
  "\<forall>st\<in>set rs. failbit (stream st) \<and> \<not> eofbit (stream st) \<Longrightarrow> end_check rs dg = dg"
  by (induction rs arbitrary: dg) (auto simp: ifstream_peek_def)

lemma CompareFilesBufferedAdvanced_unopened:
  "fs pivot = None \<Longrightarrow>
   CompareFilesBufferedAdvanced fs pivot ps t (kg, dg, out) = (kg, dg, out @ [ErrorOpeningMasterFile pivot])"
  by simp

lemma CompareFilesBufferedAdvanced_opened:
  assumes "fs pivot = Some m"
  shows "CompareFilesBufferedAdvanced fs pivot ps t (kg, dg, out) =
     (snd (compare_chunks (seekg (ifstream_open fs pivot) t)
             (map (\<lambda>p. \<lparr>filePath = p, stream = seekg (ifstream_open fs p) t\<rparr>) (filter (\<lambda>p. fs p \<noteq> None) ps)) t kg),
      end_check (fst (compare_chunks (seekg (ifstream_open fs pivot) t)
             (map (\<lambda>p. \<lparr>filePath = p, stream = seekg (ifstream_open fs p) t\<rparr>) (filter (\<lambda>p. fs p \<noteq> None) ps)) t kg)) dg,
      out @ map ErrorOpeningRightFile (filter (\<lambda>p. fs p = None) ps))"
  using assms by (simp add: open_right_files_eq split: prod.splits)

lemma CompareFilesBufferedAdvanced_sound:
  assumes "CompareFilesBufferedAdvanced fs pivot ps t (kg, dg, out) = (kg', dg', out')"
    and "fs pivot = Some m" and "buckets_diverge fs m (nat t) kg"
  shows "buckets_diverge fs m (nat t) kg' \<and>
         (\<exists>new. dg' = dg @ new \<and> (\<forall>p\<in>set new. survives fs m (nat t) p))"
proof -
  let ?M = "seekg (ifstream_open fs pivot) t"
  let ?rs = "map (\<lambda>p. \<lparr>filePath = p, stream = seekg (ifstream_open fs p) t\<rparr>) (filter (\<lambda>p. fs p \<noteq> None) ps)"
  obtain rs1 kg1 where c: "compare_chunks ?M ?rs t kg = (rs1, kg1)"
    by (cases "compare_chunks ?M ?rs t kg")
  from assms(1) CompareFilesBufferedAdvanced_opened [where fs = fs and pivot = pivot and ps = ps and t = t and kg = kg and dg = dg and out = out, OF assms(2)] c
  have res: "kg' = kg1" "dg' = end_check rs1 dg" by simp_all
  show ?thesis
  proof (cases "t < 0")
    case True
    then have "failbit ?M" by (rule negative_seek)
    from compare_chunks_failed_master [OF this] c have e: "rs1 = ?rs" "kg1 = kg" by simp_all
    have "\<forall>st\<in>set ?rs. failbit (stream st) \<and> \<not> eofbit (stream st)"
      using negative_seek [OF True] by auto
    from end_check_failed [OF this] e res assms(3) show ?thesis by simp
  next
    case False
    then have t: "0 \<le> t" by simp
    note M = opened_master [where fs = fs and p = pivot, OF assms(2) t]
    have "\<forall>st\<in>set ?rs. in_step fs m (nat t) (pos ?M) st"
      using opened_in_step [where fs = fs and t = t and m = m, OF _ t] M(2) by auto
    moreover have "buckets_diverge fs m (nat t) kg" by fact
    moreover have "(\<not> eofbit ?M \<and> \<not> failbit ?M \<and> t = int (pos ?M)) \<or> length m \<le> pos ?M"
      using M t by simp
    moreover have "nat t \<le> pos ?M" using M by simp
    ultimately have
      "buckets_diverge fs m (nat t) kg1 \<and>
       (\<forall>st\<in>set rs1. eofbit (ifstream_peek (stream st)) \<longrightarrow> survives fs m (nat t) (filePath st))"
      using compare_chunks_sound [OF c M(1)] by blast
    with res show ?thesis by (auto simp: end_check_eq)
  qed
qed

lemma compare_batches_sound:
  assumes "compare_batches fs pivot ps n t (kg, dg, out) = (kg', dg', out')"
    and "fs pivot = Some m" and "buckets_diverge fs m (nat t) kg"
  shows "buckets_diverge fs m (nat t) kg' \<and>
         (\<exists>new. dg' = dg @ new \<and> (\<forall>p\<in>set new. survives fs m (nat t) p))"
  using assms
proof (induction fs pivot ps n t "(kg, dg, out)" arbitrary: kg dg out rule: compare_batches.induct)
  case (1 fs pivot ps n t)
  show ?case
  proof (cases "n < length ps")
    case False
    with "1.prems" show ?thesis by (simp add: compare_batches.simps [of _ _ _ n])
  next
    case True
    define b where "b = min (length ps - n) MAX_BATCH"
    obtain kg1 dg1 out1 where
      c: "CompareFilesBufferedAdvanced fs pivot (take b (drop n ps)) t (kg, dg, out) = (kg1, dg1, out1)"
      by (cases "CompareFilesBufferedAdvanced fs pivot (take b (drop n ps)) t (kg, dg, out)")
    with True "1.prems"(1) have r: "compare_batches fs pivot ps (n + b) t (kg1, dg1, out1) = (kg', dg', out')"
      by (simp add: compare_batches.simps [of _ _ _ n] b_def Let_def)
    from CompareFilesBufferedAdvanced_sound [OF c "1.prems"(2,3)]
    obtain new1 where 1: "buckets_diverge fs m (nat t) kg1" "dg1 = dg @ new1"
      "\<forall>p\<in>set new1. survives fs m (nat t) p" by blast
    from "1.hyps" [OF True b_def refl c r "1.prems"(2) 1(1)]
    obtain new2 where 2: "buckets_diverge fs m (nat t) kg'" "dg' = dg1 @ new2"
      "\<forall>p\<in>set new2. survives fs m (nat t) p" by blast
    from 1 2 have "dg' = dg @ (new1 @ new2)" "\<forall>p\<in>set (new1 @ new2). survives fs m (nat t) p"
      by auto
    with 2(1) show ?thesis by blast
  qed
qed

lemma compare_batches_unopened:
  "fs pivot = None \<Longrightarrow> \<exists>out'. compare_batches fs pivot ps n t (kg, dg, out) = (kg, dg, out')"
proof (induction fs pivot ps n t "(kg, dg, out)" arbitrary: out rule: compare_batches.induct)
  case (1 fs pivot ps n t)
  show ?case
  proof (cases "n < length ps")
    case False
    then show ?thesis by (simp add: compare_batches.simps [of _ _ _ n])
  next
    case True
    define b where "b = min (length ps - n) MAX_BATCH"
    have c: "CompareFilesBufferedAdvanced fs pivot (take b (drop n ps)) t (kg, dg, out)
               = (kg, dg, out @ [ErrorOpeningMasterFile pivot])"
      using "1.prems" by simp
    from "1.hyps" [OF True b_def refl c "1.prems"] True c show ?thesis
      by (simp add: compare_batches.simps [of _ _ _ n] b_def Let_def)
  qed
qed

lemma CompareFilesBufferedAdvanced_out:
  "CompareFilesBufferedAdvanced fs pivot ps t (kg, dg, out) =
     (fst (CompareFilesBufferedAdvanced fs pivot ps t (kg, dg, [])),
      fst (snd (CompareFilesBufferedAdvanced fs pivot ps t (kg, dg, []))),
      out @ snd (snd (CompareFilesBufferedAdvanced fs pivot ps t (kg, dg, []))))"
proof (cases "fs pivot")
  case None
  then show ?thesis by simp
next
  case (Some m)
  show ?thesis
    by (simp del: CompareFilesBufferedAdvanced.simps
        add: CompareFilesBufferedAdvanced_opened [where fs = fs and pivot = pivot, OF Some])
qed

lemma compare_batches_out:
  "compare_batches fs pivot ps n t (kg, dg, out) =
     (fst (compare_batches fs pivot ps n t (kg, dg, [])),
      fst (snd (compare_batches fs pivot ps n t (kg, dg, []))),
      out @ snd (snd (compare_batches fs pivot ps n t (kg, dg, []))))"
proof (induction "length ps - n" arbitrary: n kg dg out rule: less_induct)
  case less
  show ?case
  proof (cases "n < length ps")
    case False
    then show ?thesis by (simp add: compare_batches.simps [of _ _ _ n])
  next
    case True
    define b where "b = min (length ps - n) MAX_BATCH"
    from True have smaller: "length ps - (n + b) < length ps - n"
      by (simp add: b_def MAX_BATCH_def)
    obtain kg1 dg1 ms1 where
      c0: "CompareFilesBufferedAdvanced fs pivot (take b (drop n ps)) t (kg, dg, []) = (kg1, dg1, ms1)"
      by (cases "CompareFilesBufferedAdvanced fs pivot (take b (drop n ps)) t (kg, dg, [])")
    with CompareFilesBufferedAdvanced_out [of fs pivot "take b (drop n ps)" t kg dg out]
    have c: "CompareFilesBufferedAdvanced fs pivot (take b (drop n ps)) t (kg, dg, out) = (kg1, dg1, out @ ms1)"
      by simp
    obtain kg2 dg2 ms2 where r0: "compare_batches fs pivot ps (n + b) t (kg1, dg1, []) = (kg2, dg2, ms2)"
      by (cases "compare_batches fs pivot ps (n + b) t (kg1, dg1, [])")
    from less.hyps [OF smaller, of kg1 dg1 "out @ ms1"] r0
    have r: "compare_batches fs pivot ps (n + b) t (kg1, dg1, out @ ms1) = (kg2, dg2, out @ ms1 @ ms2)"
      by simp
    from less.hyps [OF smaller, of kg1 dg1 ms1] r0
    have r': "compare_batches fs pivot ps (n + b) t (kg1, dg1, ms1) = (kg2, dg2, ms1 @ ms2)"
      by simp
    have "compare_batches fs pivot ps n t (kg, dg, out) = (kg2, dg2, out @ ms1 @ ms2)"
      using True c r by (simp add: compare_batches.simps [of _ _ _ n] b_def Let_def)
    moreover have "compare_batches fs pivot ps n t (kg, dg, []) = (kg2, dg2, ms1 @ ms2)"
      using True c0 r' by (simp add: compare_batches.simps [of _ _ _ n] b_def Let_def)
    ultimately show ?thesis by simp
  qed
qed

lemma fold_append_frame:
  assumes "\<And>e a b. e \<in> set es \<Longrightarrow> f e (a, b) = (a @ g e, b @ h e)"
  shows "fold f es (a, b) = (a @ concat (map g es), b @ concat (map h es))"
  using assms by (induction es arbitrary: a b) simp_all

lemma GroupFilesByContentUsingMap_frame:
  "GroupFilesByContentUsingMap fs files (dgs, out) t =
     (dgs @ groups_of fs files t, out @ messages_of fs files t)"
proof (induction "length files" arbitrary: files t dgs out rule: less_induct)
  case less
  show ?case
  proof (cases "length files < 2")
    case True
    then show ?thesis
      by (simp add: groups_of_def messages_of_def GroupFilesByContentUsingMap.simps)
  next
    case False
    let ?pivot = "files ! 0"
    obtain kg dg ms where c0: "compare_batches fs ?pivot (tl files) 0 t ([], [?pivot], []) = (kg, dg, ms)"
      by (cases "compare_batches fs ?pivot (tl files) 0 t ([], [?pivot], [])")
    have c: "compare_batches fs ?pivot (tl files) 0 t ([], [?pivot], out) = (kg, dg, out @ ms)" for out
      using compare_batches_out [of fs ?pivot "tl files" 0 t "[]" "[?pivot]" out] c0 by simp
    let ?f = "\<lambda>entry acc. if length (snd entry) > 1
                then GroupFilesByContentUsingMap fs (snd entry) acc (fst (fst entry)) else acc"
    let ?g = "\<lambda>e. if length (snd e) > 1 then groups_of fs (snd e) (fst (fst e)) else []"
    let ?h = "\<lambda>e. if length (snd e) > 1 then messages_of fs (snd e) (fst (fst e)) else []"
    have step: "?f e (a, b) = (a @ ?g e, b @ ?h e)" if "e \<in> set kg" for e a b
    proof -
      from that have "(fst e, snd e) \<in> set kg" by simp
      from bucket_shorter [OF c0 this False] less.hyps show ?thesis by simp
    qed
    have f: "fold ?f kg (a, b) = (a @ concat (map ?g kg), b @ concat (map ?h kg))" for a b
      by (rule fold_append_frame) (rule step)
    let ?own = "if length dg > 1 then [dg] else []"
    have "GroupFilesByContentUsingMap fs files (dgs, out) t =
            (dgs @ ?own @ concat (map ?g kg), out @ ms @ concat (map ?h kg))" for dgs out
      using False c [of out] f
      by (simp add: GroupFilesByContentUsingMap.simps [of fs files] Let_def)
    from this [of dgs out] this [of "[]" "[]"] show ?thesis
      by (simp add: groups_of_def messages_of_def)
  qed
qed

lemma groups_of_rec:
  "groups_of fs files t =
     (if length files < 2 then []
      else
        case compare_batches fs (files ! 0) (tl files) 0 t ([], [files ! 0], []) of
          (kg, dg, ms) \<Rightarrow>
            (if 1 < length dg then [dg] else []) @
            concat (map (\<lambda>e. if 1 < length (snd e) then groups_of fs (snd e) (fst (fst e)) else []) kg))"
proof (cases "length files < 2")
  case True
  then show ?thesis by (simp add: groups_of_def GroupFilesByContentUsingMap.simps)
next
  case False
  obtain kg dg ms where c0: "compare_batches fs (files ! 0) (tl files) 0 t ([], [files ! 0], []) = (kg, dg, ms)"
    by (cases "compare_batches fs (files ! 0) (tl files) 0 t ([], [files ! 0], [])")
  let ?f = "\<lambda>entry acc. if length (snd entry) > 1
              then GroupFilesByContentUsingMap fs (snd entry) acc (fst (fst entry)) else acc"
  let ?g = "\<lambda>e. if length (snd e) > 1 then groups_of fs (snd e) (fst (fst e)) else []"
  let ?h = "\<lambda>e. if length (snd e) > 1 then messages_of fs (snd e) (fst (fst e)) else []"
  have "fold ?f kg (a, b) = (a @ concat (map ?g kg), b @ concat (map ?h kg))" for a b
    by (rule fold_append_frame) (simp add: GroupFilesByContentUsingMap_frame)
  with False c0 show ?thesis
    by (simp add: groups_of_def GroupFilesByContentUsingMap.simps [of fs files] Let_def)
qed

lemma sint_byte_inj: "sint (a::byte) = sint b \<Longrightarrow> a = b"
  by (metis signed_word_eqI)

lemma key_less_irrefl: "\<not> key_less k k"
  by (simp add: key_less_def)

lemma key_less_trans: "key_less a b \<Longrightarrow> key_less b c \<Longrightarrow> key_less a c"
  by (auto simp: key_less_def)

lemma key_less_total: "a \<noteq> b \<Longrightarrow> key_less a b \<or> key_less b a"
proof -
  assume ne: "a \<noteq> b"
  show ?thesis
  proof (cases "fst a = fst b")
    case False
    then show ?thesis by (auto simp: key_less_def)
  next
    case True
    with ne have "snd a \<noteq> snd b" by (simp add: prod_eq_iff)
    with sint_byte_inj have "sint (snd a) \<noteq> sint (snd b)" by blast
    with True show ?thesis by (auto simp: key_less_def)
  qed
qed

lemma keyGroups_push_keys:
  "fst ` set (keyGroups_push k p kg) = insert k (fst ` set kg)"
proof (induction kg)
  case Nil
  show ?case by simp
next
  case (Cons e kg)
  obtain k' ps where e: "e = (k', ps)" by (cases e)
  show ?case
  proof (cases "k = k'")
    case True
    with e show ?thesis by simp
  next
    case ne: False
    show ?thesis
    proof (cases "key_less k k'")
      case True
      with e ne show ?thesis by simp
    next
      case False
      with e ne Cons.IH show ?thesis by (simp add: insert_commute)
    qed
  qed
qed

lemma keyGroups_push_sorted:
  "keyGroups_sorted kg \<Longrightarrow> keyGroups_sorted (keyGroups_push k p kg)"
  unfolding keyGroups_sorted_def
proof (induction kg)
  case Nil
  show ?case by simp
next
  case (Cons e kg)
  obtain k' ps where e: "e = (k', ps)" by (cases e)
  show ?case
  proof (cases "k = k'")
    case True
    with Cons.prems e show ?thesis by simp
  next
    case ne: False
    show ?thesis
    proof (cases "key_less k k'")
      case True
      with Cons.prems e ne show ?thesis
        by (auto intro: key_less_trans)
    next
      case False
      with ne key_less_total have lt: "key_less k' k" by blast
      from Cons.prems e have "\<forall>x\<in>fst ` set kg. key_less k' x" by simp
      with lt have "\<forall>x\<in>fst ` set (keyGroups_push k p kg). key_less k' x"
        unfolding keyGroups_push_keys by blast
      with Cons e ne False show ?thesis by simp
    qed
  qed
qed

lemma keyGroups_sorted_distinct: "keyGroups_sorted kg \<Longrightarrow> distinct (map fst kg)"
  unfolding keyGroups_sorted_def
  by (induction kg) (auto simp: key_less_irrefl)

lemma compare_chunk_sorted:
  "compare_chunk mb t rs kg = (rs', kg') \<Longrightarrow> keyGroups_sorted kg \<Longrightarrow> keyGroups_sorted kg'"
proof (induction rs arbitrary: kg rs' kg')
  case Nil
  then show ?case by simp
next
  case (Cons st rest)
  show ?case
  proof (cases "compare_right mb t (stream st)")
    case ShortRead
    with Cons show ?thesis by simp
  next
    case (Mismatch key)
    with Cons.prems have "compare_chunk mb t rest (keyGroups_push key (filePath st) kg) = (rs', kg')"
      by simp
    from Cons.IH [OF this keyGroups_push_sorted [OF Cons.prems(2)]] show ?thesis .
  next
    case (Match s')
    obtain rs1 kg1 where r: "compare_chunk mb t rest kg = (rs1, kg1)"
      by (cases "compare_chunk mb t rest kg")
    with Match Cons.prems have "kg' = kg1" by auto
    with Cons.IH [OF r Cons.prems(2)] show ?thesis by simp
  qed
qed

lemma compare_chunks_sorted:
  "compare_chunks M rs t kg = (rs', kg') \<Longrightarrow> keyGroups_sorted kg \<Longrightarrow> keyGroups_sorted kg'"
proof (induction M rs t kg arbitrary: rs' kg' rule: compare_chunks.induct)
  case (1 M rs t kg)
  obtain M1 mb where rd: "ifstream_read M BUFFER_SIZE = (M1, mb)"
    by (cases "ifstream_read M BUFFER_SIZE")
  show ?case
  proof (cases "mb = []")
    case True
    with rd "1.prems" show ?thesis by (simp add: compare_chunks.simps [of M])
  next
    case False
    obtain rs1 kg1 where cc: "compare_chunk mb t rs kg = (rs1, kg1)"
      by (cases "compare_chunk mb t rs kg")
    note s1 = compare_chunk_sorted [OF cc "1.prems"(2)]
    show ?thesis
    proof (cases "rs1 = []")
      case True
      with rd False cc "1.prems"(1) s1 show ?thesis
        by (simp add: compare_chunks.simps [of M])
    next
      case ne: False
      with rd False cc "1.prems"(1)
      have r: "compare_chunks M1 rs1 (t + int (length mb)) kg1 = (rs', kg')"
        by (simp add: compare_chunks.simps [of M])
      from False have nz: "\<not> length mb \<le> 0" by simp
      from "1.IH" [OF rd [symmetric] nz cc [symmetric] ne r s1] show ?thesis .
    qed
  qed
qed

lemma CompareFilesBufferedAdvanced_sorted:
  assumes "CompareFilesBufferedAdvanced fs pivot ps t (kg, dg, out) = (kg', dg', out')"
    and "keyGroups_sorted kg"
  shows "keyGroups_sorted kg'"
proof (cases "fs pivot")
  case None
  with assms show ?thesis by simp
next
  case (Some m)
  let ?M = "seekg (ifstream_open fs pivot) t"
  let ?rs = "map (\<lambda>p. \<lparr>filePath = p, stream = seekg (ifstream_open fs p) t\<rparr>) (filter (\<lambda>p. fs p \<noteq> None) ps)"
  obtain rs1 kg1 where c: "compare_chunks ?M ?rs t kg = (rs1, kg1)"
    by (cases "compare_chunks ?M ?rs t kg")
  from assms(1) c
    CompareFilesBufferedAdvanced_opened [where fs = fs and pivot = pivot and ps = ps and t = t
      and kg = kg and dg = dg and out = out, OF Some]
  have "kg' = kg1" by simp
  with compare_chunks_sorted [OF c assms(2)] show ?thesis by simp
qed

lemma compare_batches_sorted:
  "compare_batches fs pivot ps n t (kg, dg, out) = (kg', dg', out') \<Longrightarrow>
   keyGroups_sorted kg \<Longrightarrow> keyGroups_sorted kg'"
proof (induction fs pivot ps n t "(kg, dg, out)" arbitrary: kg dg out rule: compare_batches.induct)
  case (1 fs pivot ps n t)
  show ?case
  proof (cases "n < length ps")
    case False
    with "1.prems" show ?thesis by (simp add: compare_batches.simps [of _ _ _ n])
  next
    case True
    define b where "b = min (length ps - n) MAX_BATCH"
    obtain kg1 dg1 out1 where
      c: "CompareFilesBufferedAdvanced fs pivot (take b (drop n ps)) t (kg, dg, out) = (kg1, dg1, out1)"
      by (cases "CompareFilesBufferedAdvanced fs pivot (take b (drop n ps)) t (kg, dg, out)")
    with True "1.prems"(1) have r: "compare_batches fs pivot ps (n + b) t (kg1, dg1, out1) = (kg', dg', out')"
      by (simp add: compare_batches.simps [of _ _ _ n] b_def Let_def)
    from "1.hyps" [OF True b_def refl c r CompareFilesBufferedAdvanced_sorted [OF c "1.prems"(2)]]
    show ?thesis .
  qed
qed

lemma level_mset:
  assumes "\<not> length files < 2"
    and "compare_batches fs (files ! 0) (tl files) 0 t ([], [files ! 0], out) = (kg, dg, ms)"
  shows "mset dg + mset (keyGroups_paths kg) \<subseteq># mset files"
proof -
  from assms(1) have "files = files ! 0 # tl files"
    by (cases files) auto
  then have "mset files = mset [files ! 0] + mset (keyGroups_paths []) + mset (drop 0 (tl files))"
    by (metis add.right_neutral append_Cons append_Nil drop0 keyGroups_paths_simps(1) mset.simps(1) mset_append)
  with compare_batches_mset [OF assms(2)] show ?thesis by simp
qed

lemma level_sorted:
  assumes "compare_batches fs pivot ps 0 t ([], dg0, out) = (kg, dg, ms)"
  shows "distinct (map fst kg)"
  using compare_batches_sorted [OF assms] keyGroups_sorted_distinct
  by (simp add: keyGroups_sorted_def)

lemma level_unopened:
  assumes "compare_batches fs pivot ps 0 t ([], [pivot], out) = (kg, dg, ms)" and "fs pivot = None"
  shows "kg = []" and "dg = [pivot]"
  using compare_batches_unopened [where fs = fs and pivot = pivot and ps = ps and n = 0 and t = t
      and kg = "[]" and dg = "[pivot]" and out = out, OF assms(2)] assms(1) by simp_all

lemma level_opened:
  assumes "compare_batches fs pivot ps 0 t ([], [pivot], out) = (kg, dg, ms)" and "fs pivot = Some m"
  shows "buckets_diverge fs m (nat t) kg"
    and "\<exists>new. dg = pivot # new \<and> (\<forall>p\<in>set new. survives fs m (nat t) p)"
  using compare_batches_sound [OF assms(1,2)] by (simp_all add: buckets_diverge_def)

lemma bucket_subset:
  "e \<in> set kg \<Longrightarrow> mset (snd e) \<subseteq># mset (keyGroups_paths kg)"
proof (induction kg)
  case Nil
  then show ?case by simp
next
  case (Cons x kg)
  then show ?case
    by (auto intro: subset_mset.order_trans [OF _ mset_subset_eq_add_right])
qed

lemma groups_at_least_two:
  "g \<in> set (groups_of fs files t) \<Longrightarrow> 2 \<le> length g"
proof (induction "length files" arbitrary: files t rule: less_induct)
  case less
  show ?case
  proof (cases "length files < 2")
    case True
    with less.prems show ?thesis by (simp add: groups_of_rec [of fs files])
  next
    case False
    obtain kg dg ms where c: "compare_batches fs (files ! 0) (tl files) 0 t ([], [files ! 0], []) = (kg, dg, ms)"
      by (cases "compare_batches fs (files ! 0) (tl files) 0 t ([], [files ! 0], [])")
    from less.prems False c
    consider "g = dg" "1 < length dg"
      | e where "e \<in> set kg" "1 < length (snd e)" "g \<in> set (groups_of fs (snd e) (fst (fst e)))"
      by (auto simp: groups_of_rec [of fs files] split: if_splits)
    then show ?thesis
    proof cases
      case 1
      then show ?thesis by simp
    next
      case 2
      from 2(1) have "(fst e, snd e) \<in> set kg" by simp
      from bucket_shorter [OF c this False] have "length (snd e) < length files" .
      from less.hyps [OF this 2(3)] show ?thesis .
    qed
  qed
qed

lemma groups_mset:
  "mset (concat (groups_of fs files t)) \<subseteq># mset files"
proof (induction "length files" arbitrary: files t rule: less_induct)
  case less
  show ?case
  proof (cases "length files < 2")
    case True
    then show ?thesis by (simp add: groups_of_rec [of fs files])
  next
    case False
    obtain kg dg ms where c: "compare_batches fs (files ! 0) (tl files) 0 t ([], [files ! 0], []) = (kg, dg, ms)"
      by (cases "compare_batches fs (files ! 0) (tl files) 0 t ([], [files ! 0], [])")
    define g where "g = (\<lambda>e::GroupKey \<times> path list.
                           if 1 < length (snd e) then groups_of fs (snd e) (fst (fst e)) else [])"
    have each: "mset (concat (g e)) \<subseteq># mset (snd e)" if "e \<in> set kg" for e
    proof -
      from that have "(fst e, snd e) \<in> set kg" by simp
      from bucket_shorter [OF c this False] less.hyps show ?thesis by (simp add: g_def)
    qed
    have all: "mset (concat (concat (map g es))) \<subseteq># mset (keyGroups_paths es)" if "set es \<subseteq> set kg" for es
      using that
    proof (induction es)
      case Nil
      show ?case by simp
    next
      case (Cons e es)
      then have "mset (concat (g e)) \<subseteq># mset (snd e)"
        and "mset (concat (concat (map g es))) \<subseteq># mset (keyGroups_paths es)"
        using each by auto
      then show ?case
        by (simp add: subset_mset.add_mono)
    qed
    have own: "mset (concat (if 1 < length dg then [dg] else [])) \<subseteq># mset dg"
      by simp
    have "mset (concat (groups_of fs files t))
            = mset (concat (if 1 < length dg then [dg] else [])) + mset (concat (concat (map g kg)))"
      using False c by (simp add: groups_of_rec [of fs files] g_def)
    also have "\<dots> \<subseteq># mset dg + mset (keyGroups_paths kg)"
      using own all [of kg] by (intro subset_mset.add_mono) simp_all
    also have "\<dots> \<subseteq># mset files"
      by (rule level_mset [OF False c])
    finally show ?thesis .
  qed
qed

section \<open>Properties of the partitioner\<close>

lemma fold_filter_cond:
  "fold (\<lambda>e acc. if P e then f e acc else acc) xs a = fold f (filter P xs) a"
  by (induction xs arbitrary: a) simp_all

text \<open>
  C8: every group a call of the partitioner appends to \<open>duplicateGroups\<close> has at least two
  members, and the call recurses exactly into the buckets with at least two members: its
  result is that of the recursive calls on those buckets alone, in key order.
\<close>

theorem no_singleton_groups:
  "(\<exists>new. fst (GroupFilesByContentUsingMap fs files (duplicateGroups, out) t) = duplicateGroups @ new \<and>
      (\<forall>g\<in>set new. 2 \<le> length g)) \<and>
   (\<not> length files < 2 \<and>
    compare_batches fs (files ! 0) (tl files) 0 t ([], [files ! 0], out) = (kg, dg, out') \<longrightarrow>
      GroupFilesByContentUsingMap fs files (duplicateGroups, out) t =
        fold (\<lambda>entry acc. GroupFilesByContentUsingMap fs (snd entry) acc (fst (fst entry)))
          (filter (\<lambda>entry. 2 \<le> length (snd entry)) kg)
          (if 1 < length dg then duplicateGroups @ [dg] else duplicateGroups, out'))"
proof (intro conjI impI)
  show "\<exists>new. fst (GroupFilesByContentUsingMap fs files (duplicateGroups, out) t) = duplicateGroups @ new \<and>
      (\<forall>g\<in>set new. 2 \<le> length g)"
    using groups_at_least_two [of _ fs files t]
    by (auto simp: GroupFilesByContentUsingMap_frame)
next
  assume a: "\<not> length files < 2 \<and>
    compare_batches fs (files ! 0) (tl files) 0 t ([], [files ! 0], out) = (kg, dg, out')"
  have "(\<lambda>entry::GroupKey \<times> path list. 1 < length (snd entry)) = (\<lambda>entry. 2 \<le> length (snd entry))"
    by auto
  with a show "GroupFilesByContentUsingMap fs files (duplicateGroups, out) t =
        fold (\<lambda>entry acc. GroupFilesByContentUsingMap fs (snd entry) acc (fst (fst entry)))
          (filter (\<lambda>entry. 2 \<le> length (snd entry)) kg)
          (if 1 < length dg then duplicateGroups @ [dg] else duplicateGroups, out')"
    by (simp add: GroupFilesByContentUsingMap.simps [of fs files] Let_def fold_filter_cond)
qed

lemma three_files_level:
  "compare_batches three_files ([''a'', ''b'', ''c''] ! 0) (tl [''a'', ''b'', ''c'']) 0 0
     ([], [[''a'', ''b'', ''c''] ! 0], []) = ([((1, 9), [''c''])], [''a'', ''b''], [])"
  unfolding three_files_def by code_simp

lemma three_files_groups:
  "GroupFilesByContentUsingMap three_files [''a'', ''b'', ''c''] ([], []) 0 = ([[''a'', ''b'']], [])"
  unfolding three_files_def by code_simp

theorem no_singleton_groups_witness:
  "fst (GroupFilesByContentUsingMap three_files [''a'', ''b'', ''c''] ([], []) 0) = [] @ [[''a'', ''b'']] \<and>
   length [''a'', ''b''] = 2 \<and>
   compare_batches three_files ([''a'', ''b'', ''c''] ! 0) (tl [''a'', ''b'', ''c'']) 0 0
     ([], [[''a'', ''b'', ''c''] ! 0], []) = ([((1, 9), [''c''])], [''a'', ''b''], []) \<and>
   GroupFilesByContentUsingMap three_files [''a'', ''b'', ''c''] ([], []) 0 = ([[''a'', ''b'']], [])"
  using no_singleton_groups [of three_files "[''a'', ''b'', ''c'']" "[]" "[]" 0
      "[((1, 9), [''c''])]" "[''a'', ''b'']" "[]"]
    three_files_level three_files_groups
  by simp

lemma take_from_parts:
  assumes "a \<le> k" and "take a c = take a m" and "agree_between a k c m"
  shows "take k c = take k m"
proof -
  have "take (a + (k - a)) c = take a c @ take (k - a) (drop a c)"
    by (rule take_add)
  moreover have "take (a + (k - a)) m = take a m @ take (k - a) (drop a m)"
    by (rule take_add)
  ultimately show ?thesis using assms by (simp add: agree_between_def)
qed

lemma level_members:
  assumes "\<not> length files < 2"
    and "compare_batches fs (files ! 0) (tl files) 0 t ([], [files ! 0], out) = (kg, dg, ms)"
  shows "set dg \<subseteq> set files" and "e \<in> set kg \<Longrightarrow> set (snd e) \<subseteq> set files"
proof -
  note m = level_mset [OF assms]
  have "mset dg \<subseteq># mset files"
    using m by (meson mset_subset_eq_add_left subset_mset.order_trans)
  from set_mset_mono [OF this] show "set dg \<subseteq> set files" by simp
  assume "e \<in> set kg"
  from bucket_subset [OF this] have "mset (snd e) \<subseteq># mset dg + mset (keyGroups_paths kg)"
    by (meson mset_subset_eq_add_right subset_mset.order_trans)
  from this m have "mset (snd e) \<subseteq># mset files" by (rule subset_mset.order_trans)
  from set_mset_mono [OF this] show "set (snd e) \<subseteq> set files" by simp
qed

lemma bucket_prefix_agree:
  assumes "buckets_diverge fs m a kg" and "e \<in> set kg"
    and "prefix_agree fs files a" and "set (snd e) \<subseteq> set files"
    and "pivot \<in> set files" and "fs pivot = Some m"
  shows "prefix_agree fs (snd e) (nat (fst (fst e)))"
  unfolding prefix_agree_def
proof (intro ballI allI impI)
  fix p q c d
  assume p: "p \<in> set (snd e)" and q: "q \<in> set (snd e)" and cd: "fs p = Some c \<and> fs q = Some d"
  let ?k = "nat (fst (fst e))"
  have *: "take ?k x = take ?k m" if "r \<in> set (snd e)" "fs r = Some x" for r x
  proof -
    from assms(1,2) that(1) obtain x' where "fs r = Some x'" "diverges_at a m x' (fst e)"
      unfolding buckets_diverge_def by blast
    with that(2) have dv: "diverges_at a m x (fst e)" by simp
    from that(1) assms(4) have "r \<in> set files" by auto
    with assms(3,5) have "fs r = Some x \<and> fs pivot = Some m \<longrightarrow> take a x = take a m"
      unfolding prefix_agree_def by blast
    with that(2) assms(6) have pre: "take a x = take a m" by simp
    from dv have "int a \<le> fst (fst e)" and ag: "agree_between a ?k x m"
      by (simp_all add: diverges_at_def)
    then have "a \<le> ?k" by linarith
    note this ag
    from take_from_parts [OF this(1) pre this(2)] show ?thesis .
  qed
  from * [OF p] * [OF q] cd show "take ?k c = take ?k d" by simp
qed

lemma groups_identical:
  "prefix_agree fs files (nat t) \<Longrightarrow> g \<in> set (groups_of fs files t) \<Longrightarrow>
   \<exists>c. \<forall>p\<in>set g. fs p = Some c"
proof (induction "length files" arbitrary: files t rule: less_induct)
  case less
  show ?case
  proof (cases "length files < 2")
    case True
    with less.prems show ?thesis by (simp add: groups_of_rec [of fs files])
  next
    case False
    let ?pivot = "files ! 0"
    obtain kg dg ms where c: "compare_batches fs ?pivot (tl files) 0 t ([], [?pivot], []) = (kg, dg, ms)"
      by (cases "compare_batches fs ?pivot (tl files) 0 t ([], [?pivot], [])")
    from False have pin: "?pivot \<in> set files" by (cases files) auto
    note mem = level_members [OF False c]
    from less.prems(2) False c
    consider "g = dg" "1 < length dg"
      | e where "e \<in> set kg" "1 < length (snd e)" "g \<in> set (groups_of fs (snd e) (fst (fst e)))"
      by (auto simp: groups_of_rec [of fs files] split: if_splits)
    then show ?thesis
    proof cases
      case 1
      show ?thesis
      proof (cases "fs ?pivot")
        case None
        from level_unopened [OF c None] 1 show ?thesis by simp
      next
        case (Some m)
        from level_opened(2) [OF c Some] obtain new where
          new: "dg = ?pivot # new" "\<forall>p\<in>set new. survives fs m (nat t) p" by blast
        have "fs p = Some m" if "p \<in> set g" for p
        proof (cases "p = ?pivot")
          case True
          with Some show ?thesis by simp
        next
          case ne: False
          with that 1 new have "survives fs m (nat t) p" by auto
          then obtain x where x: "fs p = Some x" "drop (nat t) x = drop (nat t) m"
            by (auto simp: survives_def)
          from that 1 mem(1) have "p \<in> set files" by auto
          with less.prems(1) pin
          have "fs p = Some x \<and> fs ?pivot = Some m \<longrightarrow> take (nat t) x = take (nat t) m"
            unfolding prefix_agree_def by blast
          with x(1) Some have "take (nat t) x = take (nat t) m" by simp
          with x(2) have "x = m" by (metis append_take_drop_id)
          with x(1) show ?thesis by simp
        qed
        then show ?thesis by blast
      qed
    next
      case 2
      from 2(1) have "(fst e, snd e) \<in> set kg" by simp
      from bucket_shorter [OF c this False] have sh: "length (snd e) < length files" .
      show ?thesis
      proof (cases "fs ?pivot")
        case None
        from level_unopened [OF c None] 2 show ?thesis by simp
      next
        case (Some m)
        from bucket_prefix_agree [OF level_opened(1) [OF c Some] 2(1) less.prems(1) mem(2) [OF 2(1)] pin Some]
        have "prefix_agree fs (snd e) (nat (fst (fst e)))" .
        from less.hyps [OF sh this 2(3)] show ?thesis .
      qed
    qed
  qed
qed

text \<open>
  C1: when the readable input files have the same bytes before the resume offset, any two
  members of a group that \<open>GroupFilesByContentUsingMap\<close> appends are readable and have
  the same bytes over their full length. (Equal size of the input files is not needed for
  this: a member is recorded only after it matched every chunk of the pivot from the
  resume offset to the pivot's end and \<open>peek\<close> found its own end there.)
\<close>

theorem groups_are_byte_identical:
  assumes "prefix_agree fs files (nat totalBytesRead)"
    and "fst (GroupFilesByContentUsingMap fs files (duplicateGroups, out) totalBytesRead)
           = duplicateGroups @ new"
    and "g \<in> set new" and "p \<in> set g" and "q \<in> set g"
  shows "\<exists>c. fs p = Some c \<and> fs q = Some c"
proof -
  from assms(2) have "new = groups_of fs files totalBytesRead"
    by (simp add: GroupFilesByContentUsingMap_frame)
  with assms(3) have "g \<in> set (groups_of fs files totalBytesRead)" by simp
  from groups_identical [OF assms(1) this] assms(4,5) show ?thesis by blast
qed

lemma three_files_groups_from_1:
  "fst (GroupFilesByContentUsingMap three_files [''a'', ''b'', ''c''] ([], []) 1) = [] @ [[''a'', ''b'']]"
  unfolding three_files_def by code_simp

theorem groups_are_byte_identical_witness:
  "fst (GroupFilesByContentUsingMap three_files [''a'', ''b'', ''c''] ([], []) 1) = [] @ [[''a'', ''b'']] \<and>
   three_files ''a'' = Some [1, 2, 3] \<and> three_files ''b'' = Some [1, 2, 3]"
proof -
  have pre: "prefix_agree three_files [''a'', ''b'', ''c''] (nat 1)"
    by (auto simp: prefix_agree_def three_files_def)
  have "[''a'', ''b''] \<in> set [[''a'', ''b'']]" "''a'' \<in> set [''a'', ''b'']" "''b'' \<in> set [''a'', ''b'']"
    by simp_all
  from groups_are_byte_identical [OF pre three_files_groups_from_1 this]
  have "\<exists>c. three_files ''a'' = Some c \<and> three_files ''b'' = Some c" .
  then show ?thesis
    using three_files_groups_from_1 by (simp add: three_files_def)
qed

lemma agree_between_nth:
  assumes "agree_between a b c m" and "a \<le> i" and "i < b" and "i < length c" and "i < length m"
  shows "c ! i = m ! i"
proof -
  have "take (b - a) (drop a c) ! (i - a) = take (b - a) (drop a m) ! (i - a)"
    using assms(1) by (simp add: agree_between_def)
  moreover have "take (b - a) (drop a c) ! (i - a) = c ! i"
    using assms(2,3,4) by simp
  moreover have "take (b - a) (drop a m) ! (i - a) = m ! i"
    using assms(2,3,5) by simp
  ultimately show ?thesis by simp
qed

lemma diverges_at_offset_le:
  assumes "diverges_at a m c k1" and "diverges_at a m c k2"
  shows "\<not> nat (fst k1) < nat (fst k2)"
proof
  assume lt: "nat (fst k1) < nat (fst k2)"
  from assms(1) have 1: "a \<le> nat (fst k1)" "nat (fst k1) < length c" "nat (fst k1) < length m"
    "c ! nat (fst k1) \<noteq> m ! nat (fst k1)"
    by (auto simp: diverges_at_def)
  from assms(2) have "agree_between a (nat (fst k2)) c m" by (simp add: diverges_at_def)
  from agree_between_nth [OF this 1(1) lt 1(2,3)] 1(4) show False by simp
qed

lemma diverges_at_unique:
  assumes "diverges_at a m c k1" and "diverges_at a m c k2"
  shows "k1 = k2"
proof -
  from diverges_at_offset_le [OF assms] diverges_at_offset_le [OF assms(2,1)]
  have e: "nat (fst k1) = nat (fst k2)" by linarith
  from assms have "0 \<le> fst k1" "0 \<le> fst k2" by (auto simp: diverges_at_def)
  with e have "fst k1 = fst k2" by simp
  moreover from assms e have "snd k1 = snd k2" by (auto simp: diverges_at_def)
  ultimately show ?thesis by (simp add: prod_eq_iff)
qed

lemma survives_not_diverges:
  assumes "drop a c = drop a m"
  shows "\<not> diverges_at a m c k"
proof
  assume d: "diverges_at a m c k"
  let ?i = "nat (fst k)"
  from d have i: "a \<le> ?i" "?i < length c" "?i < length m" "c ! ?i \<noteq> m ! ?i"
    by (auto simp: diverges_at_def)
  have "c ! ?i = drop a c ! (?i - a)" using i(1,2) by simp
  also have "\<dots> = drop a m ! (?i - a)" using assms by simp
  also have "\<dots> = m ! ?i" using i(1,3) by simp
  finally show False using i(4) by simp
qed

lemma level_buckets_disjoint:
  assumes "buckets_diverge fs m a kg" and "e1 \<in> set kg" and "e2 \<in> set kg" and "fst e1 \<noteq> fst e2"
  shows "set (snd e1) \<inter> set (snd e2) = {}"
proof (rule ccontr)
  assume "set (snd e1) \<inter> set (snd e2) \<noteq> {}"
  then obtain p where p: "p \<in> set (snd e1)" "p \<in> set (snd e2)" by blast
  from assms(1,2) p(1) obtain c where c: "fs p = Some c" "diverges_at a m c (fst e1)"
    unfolding buckets_diverge_def by blast
  from assms(1,3) p(2) obtain c' where c': "fs p = Some c'" "diverges_at a m c' (fst e2)"
    unfolding buckets_diverge_def by blast
  from c c' have "diverges_at a m c (fst e2)" by simp
  from diverges_at_unique [OF c(2) this] assms(4) show False by simp
qed

lemma level_own_disjoint:
  assumes "buckets_diverge fs m a kg" and "e \<in> set kg"
    and "fs pivot = Some m" and "dg = pivot # new" and "\<forall>p\<in>set new. survives fs m a p"
  shows "set dg \<inter> set (snd e) = {}"
proof (rule ccontr)
  assume "set dg \<inter> set (snd e) \<noteq> {}"
  then obtain p where p: "p \<in> set dg" "p \<in> set (snd e)" by blast
  from assms(1,2) p(2) obtain c where c: "fs p = Some c" "diverges_at a m c (fst e)"
    unfolding buckets_diverge_def by blast
  from p(1) assms(3,4,5) have "survives fs m a p"
    by (auto simp: survives_def)
  with c(1) have "drop a c = drop a m" by (simp add: survives_def)
  from survives_not_diverges [OF this] c(2) show False by simp
qed

lemma groups_subset:
  assumes "g \<in> set (groups_of fs files t)"
  shows "set g \<subseteq> set files"
proof -
  from assms have "set g \<subseteq> set (concat (groups_of fs files t))" by auto
  also have "\<dots> \<subseteq> set files"
    using set_mset_mono [OF groups_mset [of fs files t]] by simp
  finally show ?thesis .
qed

lemma groups_disjoint:
  "sorted_wrt (\<lambda>g h. set g \<inter> set h = {}) (groups_of fs files t)"
proof (induction "length files" arbitrary: files t rule: less_induct)
  case less
  let ?disj = "\<lambda>g h::path list. set g \<inter> set h = {}"
  show ?case
  proof (cases "length files < 2")
    case True
    then show ?thesis by (simp add: groups_of_rec [of fs files])
  next
    case False
    let ?pivot = "files ! 0"
    obtain kg dg ms where c: "compare_batches fs ?pivot (tl files) 0 t ([], [?pivot], []) = (kg, dg, ms)"
      by (cases "compare_batches fs ?pivot (tl files) 0 t ([], [?pivot], [])")
    define g where "g = (\<lambda>e::GroupKey \<times> path list.
                           if 1 < length (snd e) then groups_of fs (snd e) (fst (fst e)) else [])"
    have rec: "groups_of fs files t = (if 1 < length dg then [dg] else []) @ concat (map g kg)"
      using False c by (simp add: groups_of_rec [of fs files] g_def)
    show ?thesis
    proof (cases "fs ?pivot")
      case None
      from level_unopened [OF c None] rec show ?thesis by simp
    next
      case (Some m)
      note bd = level_opened(1) [OF c Some]
      from level_opened(2) [OF c Some] obtain new where
        new: "dg = ?pivot # new" "\<forall>p\<in>set new. survives fs m (nat t) p" by blast
      have inner: "sorted_wrt ?disj (g e)" if "e \<in> set kg" for e
      proof -
        from that have "(fst e, snd e) \<in> set kg" by simp
        from bucket_shorter [OF c this False] less.hyps show ?thesis by (simp add: g_def)
      qed
      have sub: "set x \<subseteq> set (snd e)" if "x \<in> set (g e)" for x e
        using that groups_subset [of x fs "snd e" "fst (fst e)"]
        by (cases "1 < length (snd e)") (simp_all add: g_def)
      have all: "sorted_wrt ?disj (concat (map g es))"
        if "set es \<subseteq> set kg" "distinct (map fst es)" for es
        using that
      proof (induction es)
        case Nil
        show ?case by simp
      next
        case (Cons e es)
        have "?disj x y" if x: "x \<in> set (g e)" and y: "y \<in> set (concat (map g es))" for x y
        proof -
          from y obtain e' where e': "e' \<in> set es" "y \<in> set (g e')" by auto
          with Cons.prems have "fst e \<noteq> fst e'" "e \<in> set kg" "e' \<in> set kg" by auto
          from level_buckets_disjoint [OF bd this(2,3,1)] sub [OF x] sub [OF e'(2)]
          show ?thesis by blast
        qed
        moreover from Cons have "sorted_wrt ?disj (concat (map g es))" by simp
        moreover from Cons.prems inner have "sorted_wrt ?disj (g e)" by simp
        ultimately show ?case by (simp add: sorted_wrt_append)
      qed
      have own: "?disj dg y" if "y \<in> set (concat (map g kg))" for y
      proof -
        from that obtain e where e: "e \<in> set kg" "y \<in> set (g e)" by auto
        from level_own_disjoint [OF bd e(1) Some new] sub [OF e(2)] show ?thesis by blast
      qed
      from all [of kg] level_sorted [OF c] own rec show ?thesis
        by (simp add: sorted_wrt_append)
    qed
  qed
qed

text \<open>
  C10: the paths in the groups that one call of \<open>GroupFilesByContentUsingMap\<close> appends
  are, counted with multiplicity, among the input paths (no input is routed to two places),
  and two different appended groups have no path in common.
\<close>

theorem groups_pairwise_disjoint:
  assumes "fst (GroupFilesByContentUsingMap fs files (duplicateGroups, out) t) = duplicateGroups @ new"
    and "i < j" and "j < length new"
  shows "set (new ! i) \<inter> set (new ! j) = {} \<and> mset (concat new) \<subseteq># mset files"
proof -
  from assms(1) have new: "new = groups_of fs files t"
    by (simp add: GroupFilesByContentUsingMap_frame)
  from groups_disjoint [of fs files t] assms(2,3) new
  have "set (new ! i) \<inter> set (new ! j) = {}"
    by (simp add: sorted_wrt_iff_nth_less)
  with groups_mset [of fs files t] new show ?thesis by simp
qed

lemma four_files_groups:
  "fst (GroupFilesByContentUsingMap four_files [''a'', ''c'', ''b'', ''d''] ([], []) 0)
     = [] @ [[''a'', ''b''], [''c'', ''d'']]"
  unfolding four_files_def by code_simp

theorem groups_pairwise_disjoint_witness:
  "fst (GroupFilesByContentUsingMap four_files [''a'', ''c'', ''b'', ''d''] ([], []) 0)
     = [] @ [[''a'', ''b''], [''c'', ''d'']] \<and>
   (0::nat) < 1 \<and> 1 < length [[''a'', ''b''], [''c'', ''d'']] \<and>
   set ([[''a'', ''b''], [''c'', ''d'']] ! 0) \<inter> set ([[''a'', ''b''], [''c'', ''d'']] ! 1) = {} \<and>
   mset (concat [[''a'', ''b''], [''c'', ''d'']]) \<subseteq># mset [''a'', ''c'', ''b'', ''d'']"
proof -
  have h: "(0::nat) < 1" "1 < length [[''a'', ''b''], [''c'', ''d'']]" by simp_all
  from groups_pairwise_disjoint [OF four_files_groups h] four_files_groups h
  show ?thesis by blast
qed

declare GroupFilesByContentUsingMap_depth.simps [simp del]

lemma fold_option_total:
  assumes "\<And>e a. e \<in> set es \<Longrightarrow> f e (Some a) = Some (g e a)"
  shows "fold f es (Some a) = Some (fold g es a)"
  using assms by (induction es arbitrary: a) simp_all

lemma depth_suffices:
  "length files \<le> n \<Longrightarrow>
   GroupFilesByContentUsingMap_depth (Suc n) fs files acc t = Some (GroupFilesByContentUsingMap fs files acc t)"
proof (induction n arbitrary: files acc t)
  case 0
  then show ?case
    by (cases acc)
      (simp add: GroupFilesByContentUsingMap.simps GroupFilesByContentUsingMap_depth.simps(2))
next
  case (Suc n)
  obtain dgs out where acc: "acc = (dgs, out)" by (cases acc)
  show ?case
  proof (cases "length files < 2")
    case True
    then show ?thesis
      by (simp add: acc GroupFilesByContentUsingMap.simps GroupFilesByContentUsingMap_depth.simps(2))
  next
    case False
    let ?pivot = "files ! 0"
    obtain kg dg out' where c: "compare_batches fs ?pivot (tl files) 0 t ([], [?pivot], out) = (kg, dg, out')"
      by (cases "compare_batches fs ?pivot (tl files) 0 t ([], [?pivot], out)")
    define f where "f = (\<lambda>(entry::GroupKey \<times> path list) r. case r of None \<Rightarrow> None
                | Some acc' \<Rightarrow> if length (snd entry) > 1
                    then GroupFilesByContentUsingMap_depth (Suc n) fs (snd entry) acc' (fst (fst entry))
                    else Some acc')"
    define g where "g = (\<lambda>(entry::GroupKey \<times> path list) acc. if length (snd entry) > 1
                then GroupFilesByContentUsingMap fs (snd entry) acc (fst (fst entry)) else acc)"
    define start where "start = (if length dg > 1 then dgs @ [dg] else dgs, out')"
    have step: "f e (Some a) = Some (g e a)" if "e \<in> set kg" for e a
    proof -
      from that have "(fst e, snd e) \<in> set kg" by simp
      from bucket_shorter [OF c this False] Suc.prems have "length (snd e) \<le> n" by simp
      from Suc.IH [OF this, of a "fst (fst e)"] show ?thesis by (simp add: f_def g_def)
    qed
    have fe: "fold f kg (Some start) = Some (fold g kg start)"
      by (rule fold_option_total) (rule step)
    have lhs: "GroupFilesByContentUsingMap_depth (Suc (Suc n)) fs files acc t = fold f kg (Some start)"
      using False
      by (simp only: acc GroupFilesByContentUsingMap_depth.simps(2) if_False Let_def c
          prod.case f_def start_def fst_conv snd_conv)
    have rhs: "GroupFilesByContentUsingMap fs files acc t = fold g kg start"
      using False c
      by (simp add: acc GroupFilesByContentUsingMap.simps [of fs files] Let_def g_def start_def)
    show ?thesis by (simp only: lhs rhs fe)
  qed
qed

lemma bucket_descends:
  assumes "\<not> length files < 2"
    and "compare_batches fs (files ! 0) (tl files) 0 t ([], [files ! 0], out) = (kg, dg, out')"
    and "(k, b) \<in> set kg"
  shows "length b < length files" and "files ! 0 \<notin> set b" and "t \<le> fst k"
    and "\<exists>m. fs (files ! 0) = Some m \<and> fst k < int (length m)"
proof -
  show "length b < length files" by (rule bucket_shorter [OF assms(2,3,1)])
  obtain m where m: "fs (files ! 0) = Some m"
    using level_unopened(1) [OF assms(2)] assms(3) by (cases "fs (files ! 0)") auto
  note bd = level_opened(1) [OF assms(2) m]
  from assms(3) have e: "(k, b) \<in> set kg" "snd (k, b) = b" "fst (k, b) = k" by simp_all
  show "files ! 0 \<notin> set b"
  proof
    assume "files ! 0 \<in> set b"
    with bd e(1) m have "diverges_at (nat t) m m k"
      unfolding buckets_diverge_def by force
    with survives_not_diverges [of "nat t" m m k] show False by simp
  qed
  from bd e(1) have "b \<noteq> []" unfolding buckets_diverge_def by force
  then obtain p where "p \<in> set b" by (cases b) auto
  with bd e(1) obtain c where "diverges_at (nat t) m c k"
    unfolding buckets_diverge_def by force
  then have k: "int (nat t) \<le> fst k" "nat (fst k) < length m"
    by (simp_all add: diverges_at_def)
  from k(1) show "t \<le> fst k" by linarith
  from k m show "\<exists>m. fs (files ! 0) = Some m \<and> fst k < int (length m)" by auto
qed

text \<open>
  C4: the partitioner terminates on every input. A depth bound of one more than the number
  of candidates is never exhausted: the depth-bounded recursion returns what the
  partitioner returns. The reason is the descent of the recursion: every bucket a call
  produces is strictly shorter than the call's candidate list and does not contain the
  pivot; its resume offset is not below the call's and is below the pivot's length.
\<close>

theorem partitioning_terminates:
  "(length files \<le> n \<longrightarrow>
      GroupFilesByContentUsingMap_depth (Suc n) fs files acc t =
        Some (GroupFilesByContentUsingMap fs files acc t)) \<and>
   (\<not> length files < 2 \<and>
    compare_batches fs (files ! 0) (tl files) 0 t ([], [files ! 0], out) = (kg, dg, out') \<and>
    (k, b) \<in> set kg \<longrightarrow>
      length b < length files \<and> files ! 0 \<notin> set b \<and> t \<le> fst k \<and>
      (\<exists>m. fs (files ! 0) = Some m \<and> fst k < int (length m)))"
proof (intro conjI impI)
  assume "length files \<le> n"
  then show "GroupFilesByContentUsingMap_depth (Suc n) fs files acc t =
        Some (GroupFilesByContentUsingMap fs files acc t)"
    by (rule depth_suffices)
next
  assume a: "\<not> length files < 2 \<and>
    compare_batches fs (files ! 0) (tl files) 0 t ([], [files ! 0], out) = (kg, dg, out') \<and>
    (k, b) \<in> set kg"
  then have 1: "\<not> length files < 2"
    and 2: "compare_batches fs (files ! 0) (tl files) 0 t ([], [files ! 0], out) = (kg, dg, out')"
    and 3: "(k, b) \<in> set kg"
    by simp_all
  note d = bucket_descends [OF 1 2 3]
  from d(1) show "length b < length files" .
  from d(2) show "files ! 0 \<notin> set b" .
  from d(3) show "t \<le> fst k" .
  from d(4) show "\<exists>m. fs (files ! 0) = Some m \<and> fst k < int (length m)" .
qed

theorem partitioning_terminates_witness:
  "length [''a'', ''b'', ''c''] \<le> 3 \<and>
   GroupFilesByContentUsingMap_depth (Suc 3) three_files [''a'', ''b'', ''c''] ([], []) 0 =
     Some ([[''a'', ''b'']], []) \<and>
   compare_batches three_files ([''a'', ''b'', ''c''] ! 0) (tl [''a'', ''b'', ''c'']) 0 0
     ([], [[''a'', ''b'', ''c''] ! 0], []) = ([((1, 9), [''c''])], [''a'', ''b''], []) \<and>
   length [''c''] < length [''a'', ''b'', ''c''] \<and> [''a'', ''b'', ''c''] ! 0 \<notin> set [''c''] \<and>
   three_files ''a'' = Some [1, 2, 3]"
proof -
  have h: "length [''a'', ''b'', ''c''] \<le> 3" "\<not> length [''a'', ''b'', ''c''] < 2"
    "((1, 9), [''c'']) \<in> set [((1::int, 9::byte), [''c''])]"
    by simp_all
  note t = partitioning_terminates [of "[''a'', ''b'', ''c'']" 3 three_files "([], [])" 0 "[]"
      "[((1, 9), [''c''])]" "[''a'', ''b'']" "[]" "(1, 9)" "[''c'']"]
  from t [THEN conjunct1, rule_format, OF h(1)]
  have 1: "GroupFilesByContentUsingMap_depth (Suc 3) three_files [''a'', ''b'', ''c''] ([], []) 0 =
          Some (GroupFilesByContentUsingMap three_files [''a'', ''b'', ''c''] ([], []) 0)" .
  from h(2) three_files_level h(3)
  have "\<not> length [''a'', ''b'', ''c''] < 2 \<and>
    compare_batches three_files ([''a'', ''b'', ''c''] ! 0) (tl [''a'', ''b'', ''c'']) 0 0
      ([], [[''a'', ''b'', ''c''] ! 0], []) = ([((1, 9), [''c''])], [''a'', ''b''], []) \<and>
    ((1, 9), [''c'']) \<in> set [((1::int, 9::byte), [''c''])]"
    by (intro conjI)
  note t2 = t [THEN conjunct2, rule_format, OF this]
  have 2: "length [''c''] < length [''a'', ''b'', ''c'']" "[''a'', ''b'', ''c''] ! 0 \<notin> set [''c'']"
    using t2 [THEN conjunct1] t2 [THEN conjunct2, THEN conjunct1] by this+
  have 3: "three_files ''a'' = Some [1, 2, 3]" by (simp add: three_files_def)
  from 1 2 3 h(1) three_files_groups three_files_level show ?thesis
    by (simp only: simp_thms)
qed

lemma groups_openable:
  "g \<in> set (groups_of fs files t) \<Longrightarrow> p \<in> set g \<Longrightarrow> fs p \<noteq> None"
proof (induction "length files" arbitrary: files t rule: less_induct)
  case less
  show ?case
  proof (cases "length files < 2")
    case True
    with less.prems show ?thesis by (simp add: groups_of_rec [of fs files])
  next
    case False
    let ?pivot = "files ! 0"
    obtain kg dg ms where c: "compare_batches fs ?pivot (tl files) 0 t ([], [?pivot], []) = (kg, dg, ms)"
      by (cases "compare_batches fs ?pivot (tl files) 0 t ([], [?pivot], [])")
    from less.prems(1) False c
    consider "g = dg" "1 < length dg"
      | e where "e \<in> set kg" "1 < length (snd e)" "g \<in> set (groups_of fs (snd e) (fst (fst e)))"
      by (auto simp: groups_of_rec [of fs files] split: if_splits)
    then show ?thesis
    proof cases
      case 1
      show ?thesis
      proof (cases "fs ?pivot")
        case None
        from level_unopened [OF c None] 1 show ?thesis by simp
      next
        case (Some m)
        from level_opened(2) [OF c Some] obtain new where
          new: "dg = ?pivot # new" "\<forall>p\<in>set new. survives fs m (nat t) p" by blast
        with 1(1) less.prems(2) Some show ?thesis
          by (auto simp: survives_def)
      qed
    next
      case 2
      from 2(1) have "(fst e, snd e) \<in> set kg" by simp
      from bucket_shorter [OF c this False] have "length (snd e) < length files" .
      from less.hyps [OF this 2(3) less.prems(2)] show ?thesis .
    qed
  qed
qed

lemma unopened_pivot_no_groups:
  assumes "fs (files ! 0) = None"
  shows "groups_of fs files t = []"
proof (cases "length files < 2")
  case True
  then show ?thesis by (simp add: groups_of_rec [of fs files])
next
  case False
  obtain kg dg ms where c: "compare_batches fs (files ! 0) (tl files) 0 t ([], [files ! 0], []) = (kg, dg, ms)"
    by (cases "compare_batches fs (files ! 0) (tl files) 0 t ([], [files ! 0], [])")
  from level_unopened [OF c assms] False c show ?thesis
    by (simp add: groups_of_rec [of fs files])
qed

lemma keyGroups_push_paths:
  "set (keyGroups_paths (keyGroups_push k p kg)) = insert p (set (keyGroups_paths kg))"
  using mset_keyGroups_push [of k p kg, THEN arg_cong, of set_mset] by simp

lemma compare_chunk_paths:
  "compare_chunk mb t rs kg = (rs', kg') \<Longrightarrow>
   set (map filePath rs') \<subseteq> set (map filePath rs) \<and>
   set (keyGroups_paths kg') \<subseteq> set (keyGroups_paths kg) \<union> set (map filePath rs)"
proof (induction rs arbitrary: kg rs' kg')
  case Nil
  then show ?case by simp
next
  case (Cons st rest)
  show ?case
  proof (cases "compare_right mb t (stream st)")
    case ShortRead
    with Cons.prems have "compare_chunk mb t rest kg = (rs', kg')" by simp
    from Cons.IH [OF this] show ?thesis by auto
  next
    case (Mismatch key)
    with Cons.prems have "compare_chunk mb t rest (keyGroups_push key (filePath st) kg) = (rs', kg')"
      by simp
    from Cons.IH [OF this] show ?thesis by (auto simp: keyGroups_push_paths)
  next
    case (Match s')
    obtain rs1 kg1 where r: "compare_chunk mb t rest kg = (rs1, kg1)"
      by (cases "compare_chunk mb t rest kg")
    with Match Cons.prems have "rs' = st\<lparr>stream := s'\<rparr> # rs1" "kg' = kg1" by auto
    with Cons.IH [OF r] show ?thesis by auto
  qed
qed

lemma compare_chunks_paths:
  "compare_chunks M rs t kg = (rs', kg') \<Longrightarrow>
   set (map filePath rs') \<subseteq> set (map filePath rs) \<and>
   set (keyGroups_paths kg') \<subseteq> set (keyGroups_paths kg) \<union> set (map filePath rs)"
proof (induction M rs t kg arbitrary: rs' kg' rule: compare_chunks.induct)
  case (1 M rs t kg)
  obtain M1 mb where rd: "ifstream_read M BUFFER_SIZE = (M1, mb)"
    by (cases "ifstream_read M BUFFER_SIZE")
  show ?case
  proof (cases "mb = []")
    case True
    with rd "1.prems" show ?thesis by (simp add: compare_chunks.simps [of M])
  next
    case False
    obtain rs1 kg1 where cc: "compare_chunk mb t rs kg = (rs1, kg1)"
      by (cases "compare_chunk mb t rs kg")
    note s1 = compare_chunk_paths [OF cc]
    show ?thesis
    proof (cases "rs1 = []")
      case True
      with rd False cc "1.prems"(1) s1 show ?thesis
        by (simp add: compare_chunks.simps [of M])
    next
      case ne: False
      with rd False cc "1.prems"(1)
      have r: "compare_chunks M1 rs1 (t + int (length mb)) kg1 = (rs', kg')"
        by (simp add: compare_chunks.simps [of M])
      from False have nz: "\<not> length mb \<le> 0" by simp
      from "1.IH" [OF rd [symmetric] nz cc [symmetric] ne r] s1 show ?thesis by blast
    qed
  qed
qed

lemma CompareFilesBufferedAdvanced_paths:
  assumes "CompareFilesBufferedAdvanced fs pivot ps t (kg, dg, out) = (kg', dg', out')"
  shows "set dg' \<subseteq> set dg \<union> {q \<in> set ps. fs q \<noteq> None}"
    and "set (keyGroups_paths kg') \<subseteq> set (keyGroups_paths kg) \<union> {q \<in> set ps. fs q \<noteq> None}"
proof -
  have "set dg' \<subseteq> set dg \<union> {q \<in> set ps. fs q \<noteq> None} \<and>
        set (keyGroups_paths kg') \<subseteq> set (keyGroups_paths kg) \<union> {q \<in> set ps. fs q \<noteq> None}"
  proof (cases "fs pivot")
    case None
    with assms show ?thesis by auto
  next
    case (Some m)
    let ?M = "seekg (ifstream_open fs pivot) t"
    let ?rs = "map (\<lambda>p. \<lparr>filePath = p, stream = seekg (ifstream_open fs p) t\<rparr>) (filter (\<lambda>p. fs p \<noteq> None) ps)"
    obtain rs1 kg1 where c: "compare_chunks ?M ?rs t kg = (rs1, kg1)"
      by (cases "compare_chunks ?M ?rs t kg")
    from assms c
      CompareFilesBufferedAdvanced_opened [where fs = fs and pivot = pivot and ps = ps and t = t
        and kg = kg and dg = dg and out = out, OF Some]
    have res: "kg' = kg1" "dg' = end_check rs1 dg" by simp_all
    have rs: "set (map filePath ?rs) = {q \<in> set ps. fs q \<noteq> None}"
      by (auto simp: comp_def)
    from compare_chunks_paths [OF c] rs
    have "set (map filePath rs1) \<subseteq> {q \<in> set ps. fs q \<noteq> None}"
      and "set (keyGroups_paths kg1) \<subseteq> set (keyGroups_paths kg) \<union> {q \<in> set ps. fs q \<noteq> None}"
      by simp_all
    with res show ?thesis by (auto simp: end_check_eq)
  qed
  then show "set dg' \<subseteq> set dg \<union> {q \<in> set ps. fs q \<noteq> None}"
    and "set (keyGroups_paths kg') \<subseteq> set (keyGroups_paths kg) \<union> {q \<in> set ps. fs q \<noteq> None}"
    by simp_all
qed

lemma unopened_candidate:
  assumes "fs pivot = Some m" and "p \<in> set ps" and "fs p = None"
  shows "ErrorOpeningRightFile p \<in> set (snd (snd (CompareFilesBufferedAdvanced fs pivot ps t (kg, dg, out))))"
    and "fst (CompareFilesBufferedAdvanced fs pivot ps t (kg, dg, out)) =
         fst (CompareFilesBufferedAdvanced fs pivot (filter (\<lambda>q. fs q \<noteq> None) ps) t (kg, dg, out))"
    and "fst (snd (CompareFilesBufferedAdvanced fs pivot ps t (kg, dg, out))) =
         fst (snd (CompareFilesBufferedAdvanced fs pivot (filter (\<lambda>q. fs q \<noteq> None) ps) t (kg, dg, out)))"
    and "p \<notin> set dg \<Longrightarrow> p \<notin> set (fst (snd (CompareFilesBufferedAdvanced fs pivot ps t (kg, dg, out))))"
    and "p \<notin> set (keyGroups_paths kg) \<Longrightarrow>
         p \<notin> set (keyGroups_paths (fst (CompareFilesBufferedAdvanced fs pivot ps t (kg, dg, out))))"
proof -
  note o = CompareFilesBufferedAdvanced_opened [where fs = fs and pivot = pivot and t = t
      and kg = kg and dg = dg and out = out, OF assms(1)]
  show "ErrorOpeningRightFile p \<in> set (snd (snd (CompareFilesBufferedAdvanced fs pivot ps t (kg, dg, out))))"
    using assms(2,3) by (simp del: CompareFilesBufferedAdvanced.simps add: o)
  show 1: "fst (CompareFilesBufferedAdvanced fs pivot ps t (kg, dg, out)) =
         fst (CompareFilesBufferedAdvanced fs pivot (filter (\<lambda>q. fs q \<noteq> None) ps) t (kg, dg, out))"
    by (simp del: CompareFilesBufferedAdvanced.simps add: o)
  show 2: "fst (snd (CompareFilesBufferedAdvanced fs pivot ps t (kg, dg, out))) =
         fst (snd (CompareFilesBufferedAdvanced fs pivot (filter (\<lambda>q. fs q \<noteq> None) ps) t (kg, dg, out)))"
    by (simp del: CompareFilesBufferedAdvanced.simps add: o)
  obtain kg' dg' out' where
    r: "CompareFilesBufferedAdvanced fs pivot ps t (kg, dg, out) = (kg', dg', out')"
    by (cases "CompareFilesBufferedAdvanced fs pivot ps t (kg, dg, out)")
  note sub = CompareFilesBufferedAdvanced_paths [OF r]
  from assms(3) have np: "p \<notin> {q \<in> set ps. fs q \<noteq> None}" by simp
  show "p \<notin> set dg \<Longrightarrow> p \<notin> set (fst (snd (CompareFilesBufferedAdvanced fs pivot ps t (kg, dg, out))))"
    using sub(1) np r by (auto simp del: CompareFilesBufferedAdvanced.simps)
  show "p \<notin> set (keyGroups_paths kg) \<Longrightarrow>
         p \<notin> set (keyGroups_paths (fst (CompareFilesBufferedAdvanced fs pivot ps t (kg, dg, out))))"
    using sub(2) np r by (auto simp del: CompareFilesBufferedAdvanced.simps)
qed

text \<open>
  C9: a pivot that cannot be opened makes the comparator return at once, with the buckets
  and the duplicate group as they were and the failure reported, and the partitioner then
  appends no group. A candidate that cannot be opened, when the pivot can, is reported; the
  buckets and the duplicate group come out as if the batch had held only the candidates
  that open; the candidate is added to neither; and it is in no group the partitioner
  appends.
\<close>

theorem unopenable_files_are_excluded:
  "(fs pivot = None \<longrightarrow>
      CompareFilesBufferedAdvanced fs pivot ps t (kg, dg, out) =
        (kg, dg, out @ [ErrorOpeningMasterFile pivot])) \<and>
   (fs (files ! 0) = None \<longrightarrow>
      fst (GroupFilesByContentUsingMap fs files (duplicateGroups, out) t) = duplicateGroups) \<and>
   (fs pivot \<noteq> None \<and> p \<in> set ps \<and> fs p = None \<longrightarrow>
      ErrorOpeningRightFile p \<in> set (snd (snd (CompareFilesBufferedAdvanced fs pivot ps t (kg, dg, out)))) \<and>
      fst (CompareFilesBufferedAdvanced fs pivot ps t (kg, dg, out)) =
        fst (CompareFilesBufferedAdvanced fs pivot (filter (\<lambda>q. fs q \<noteq> None) ps) t (kg, dg, out)) \<and>
      fst (snd (CompareFilesBufferedAdvanced fs pivot ps t (kg, dg, out))) =
        fst (snd (CompareFilesBufferedAdvanced fs pivot (filter (\<lambda>q. fs q \<noteq> None) ps) t (kg, dg, out))) \<and>
      (p \<notin> set dg \<longrightarrow>
         p \<notin> set (fst (snd (CompareFilesBufferedAdvanced fs pivot ps t (kg, dg, out))))) \<and>
      (p \<notin> set (keyGroups_paths kg) \<longrightarrow>
         p \<notin> set (keyGroups_paths (fst (CompareFilesBufferedAdvanced fs pivot ps t (kg, dg, out)))))) \<and>
   (fs p = None \<and>
    fst (GroupFilesByContentUsingMap fs files (duplicateGroups, out) t) = duplicateGroups @ new \<and>
    g \<in> set new \<longrightarrow> p \<notin> set g)"
proof (intro conjI impI)
  assume "fs pivot = None"
  then show "CompareFilesBufferedAdvanced fs pivot ps t (kg, dg, out) =
        (kg, dg, out @ [ErrorOpeningMasterFile pivot])"
    by (rule CompareFilesBufferedAdvanced_unopened)
next
  assume "fs (files ! 0) = None"
  then show "fst (GroupFilesByContentUsingMap fs files (duplicateGroups, out) t) = duplicateGroups"
    by (simp add: GroupFilesByContentUsingMap_frame unopened_pivot_no_groups)
next
  assume a: "fs p = None \<and>
    fst (GroupFilesByContentUsingMap fs files (duplicateGroups, out) t) = duplicateGroups @ new \<and>
    g \<in> set new"
  then have g: "g \<in> set (groups_of fs files t)"
    by (simp add: GroupFilesByContentUsingMap_frame)
  show "p \<notin> set g"
  proof
    assume "p \<in> set g"
    from groups_openable [OF g this] a show False by simp
  qed
next
  assume a: "fs pivot \<noteq> None \<and> p \<in> set ps \<and> fs p = None"
  then obtain m where m: "fs pivot = Some m" by auto
  from a have p: "p \<in> set ps" "fs p = None" by simp_all
  note u = unopened_candidate [where fs = fs and pivot = pivot and p = p and ps = ps and t = t
      and kg = kg and dg = dg and out = out, OF m p]
  from u(1) show "ErrorOpeningRightFile p \<in> set (snd (snd (CompareFilesBufferedAdvanced fs pivot ps t (kg, dg, out))))" .
  from u(2) show "fst (CompareFilesBufferedAdvanced fs pivot ps t (kg, dg, out)) =
        fst (CompareFilesBufferedAdvanced fs pivot (filter (\<lambda>q. fs q \<noteq> None) ps) t (kg, dg, out))" .
  from u(3) show "fst (snd (CompareFilesBufferedAdvanced fs pivot ps t (kg, dg, out))) =
        fst (snd (CompareFilesBufferedAdvanced fs pivot (filter (\<lambda>q. fs q \<noteq> None) ps) t (kg, dg, out)))" .
  { assume "p \<notin> set dg"
    from u(4) [OF this]
    show "p \<notin> set (fst (snd (CompareFilesBufferedAdvanced fs pivot ps t (kg, dg, out))))" . }
  { assume "p \<notin> set (keyGroups_paths kg)"
    from u(5) [OF this]
    show "p \<notin> set (keyGroups_paths (fst (CompareFilesBufferedAdvanced fs pivot ps t (kg, dg, out))))" . }
qed

lemma locked_files_runs:
  "CompareFilesBufferedAdvanced locked_files ''a'' [''x'', ''b''] 0 ([], [''a''], [])
     = ([], [''a'', ''b''], [ErrorOpeningRightFile ''x''])"
  "CompareFilesBufferedAdvanced locked_files ''x'' [''a'', ''b''] 0 ([], [''x''], [])
     = ([], [''x''], [] @ [ErrorOpeningMasterFile ''x''])"
  "GroupFilesByContentUsingMap locked_files [''a'', ''x'', ''b''] ([], []) 0
     = ([[''a'', ''b'']], [ErrorOpeningRightFile ''x''])"
  "GroupFilesByContentUsingMap locked_files [''x'', ''a'', ''b''] ([], []) 0
     = ([], [ErrorOpeningMasterFile ''x''])"
  unfolding locked_files_def by code_simp+

theorem unopenable_files_are_excluded_witness:
  "locked_files ''x'' = None \<and> locked_files ''a'' \<noteq> None \<and>
   CompareFilesBufferedAdvanced locked_files ''x'' [''a'', ''b''] 0 ([], [''x''], [])
     = ([], [''x''], [] @ [ErrorOpeningMasterFile ''x'']) \<and>
   fst (GroupFilesByContentUsingMap locked_files [''x'', ''a'', ''b''] ([], []) 0) = [] \<and>
   CompareFilesBufferedAdvanced locked_files ''a'' [''x'', ''b''] 0 ([], [''a''], [])
     = ([], [''a'', ''b''], [ErrorOpeningRightFile ''x'']) \<and>
   fst (GroupFilesByContentUsingMap locked_files [''a'', ''x'', ''b''] ([], []) 0) = [] @ [[''a'', ''b'']] \<and>
   ''x'' \<notin> set [''a'', ''b'']"
proof -
  have h: "locked_files ''x'' = None" "locked_files ''a'' \<noteq> None"
    "locked_files ([''x'', ''a'', ''b''] ! 0) = None" "''x'' \<in> set [''x'', ''b'']"
    by (simp_all add: locked_files_def)
  note t1 = unopenable_files_are_excluded [of locked_files "''x''" "[''a'', ''b'']" 0 "[]" "[''x'']" "[]"
      "[''x'', ''a'', ''b'']" "[]" "''x''" "[[''a'', ''b'']]" "[''a'', ''b'']"]
  note t2 = unopenable_files_are_excluded [of locked_files "''a''" "[''x'', ''b'']" 0 "[]" "[''a'']" "[]"
      "[''a'', ''x'', ''b'']" "[]" "''x''" "[[''a'', ''b'']]" "[''a'', ''b'']"]
  from t1 h(1) have 1: "CompareFilesBufferedAdvanced locked_files ''x'' [''a'', ''b''] 0 ([], [''x''], [])
     = ([], [''x''], [] @ [ErrorOpeningMasterFile ''x''])" by blast
  from t1 h(3) have 2: "fst (GroupFilesByContentUsingMap locked_files [''x'', ''a'', ''b''] ([], []) 0) = []"
    by blast
  have g: "fst (GroupFilesByContentUsingMap locked_files [''a'', ''x'', ''b''] ([], []) 0) = [] @ [[''a'', ''b'']]"
    by (simp add: locked_files_runs)
  have "[''a'', ''b''] \<in> set [[''a'', ''b'']]" by simp
  with t2 [THEN conjunct2, THEN conjunct2, THEN conjunct2] h(1) g
  have 3: "''x'' \<notin> set [''a'', ''b'']" by blast
  from h(2,4) h(1) t2 [THEN conjunct2, THEN conjunct2, THEN conjunct1]
  have "ErrorOpeningRightFile ''x'' \<in>
    set (snd (snd (CompareFilesBufferedAdvanced locked_files ''a'' [''x'', ''b''] 0 ([], [''a''], []))))"
    by blast
  with 1 2 3 g h(1,2) locked_files_runs(1) show ?thesis by (simp only: simp_thms)
qed

lemma sorted_head_absent:
  assumes "keyGroups_sorted ((k0, ps) # rest)" and "key_less k k0"
  shows "map_of ((k0, ps) # rest) k = None"
proof -
  have "k \<noteq> k0"
  proof
    assume "k = k0"
    with assms(2) key_less_irrefl [of k0] show False by simp
  qed
  moreover have "k \<notin> fst ` set rest"
  proof
    assume "k \<in> fst ` set rest"
    with assms(1) have "key_less k0 k" by (auto simp: keyGroups_sorted_def)
    with assms(2) key_less_trans key_less_irrefl show False by blast
  qed
  ultimately show ?thesis by (simp add: map_of_eq_None_iff)
qed

lemma map_of_keyGroups_push:
  "keyGroups_sorted kg \<Longrightarrow>
   map_of (keyGroups_push k p kg) k' = (if k' = k then Some (bucket kg k @ [p]) else map_of kg k')"
proof (induction kg)
  case Nil
  show ?case by (simp add: bucket_def)
next
  case (Cons e kg)
  obtain k0 ps where e: "e = (k0, ps)" by (cases e)
  from Cons.prems have s: "keyGroups_sorted kg" by (simp add: keyGroups_sorted_def)
  show ?case
  proof (cases "k = k0")
    case True
    with e show ?thesis by (simp add: bucket_def)
  next
    case ne: False
    show ?thesis
    proof (cases "key_less k k0")
      case True
      from sorted_head_absent [OF Cons.prems [unfolded e] True] e ne True show ?thesis
        by (simp add: bucket_def)
    next
      case False
      have "map_of (keyGroups_push k p (e # kg)) k' = map_of ((k0, ps) # keyGroups_push k p kg) k'"
        using e ne False by simp
      also have "\<dots> = (if k' = k0 then Some ps else map_of (keyGroups_push k p kg) k')"
        by simp
      also have "\<dots> = (if k' = k0 then Some ps
                        else if k' = k then Some (bucket kg k @ [p]) else map_of kg k')"
        using Cons.IH [OF s] by simp
      also have "\<dots> = (if k' = k then Some (bucket (e # kg) k @ [p]) else map_of (e # kg) k')"
        using e ne by (simp add: bucket_def)
      finally show ?thesis .
    qed
  qed
qed

lemma bucket_keyGroups_push:
  "keyGroups_sorted kg \<Longrightarrow>
   bucket (keyGroups_push k p kg) k' = (if k' = k then bucket kg k @ [p] else bucket kg k')"
  by (simp add: bucket_def map_of_keyGroups_push)

lemma compare_chunk_bucket_mono:
  "compare_chunk mb t rs kg = (rs', kg') \<Longrightarrow> keyGroups_sorted kg \<Longrightarrow>
   set (bucket kg k) \<subseteq> set (bucket kg' k)"
proof (induction rs arbitrary: kg rs' kg')
  case Nil
  then show ?case by simp
next
  case (Cons st rest)
  show ?case
  proof (cases "compare_right mb t (stream st)")
    case ShortRead
    with Cons show ?thesis by simp
  next
    case (Mismatch key)
    with Cons.prems have "compare_chunk mb t rest (keyGroups_push key (filePath st) kg) = (rs', kg')"
      by simp
    from Cons.IH [OF this keyGroups_push_sorted [OF Cons.prems(2)]] Cons.prems(2)
    show ?thesis by (auto simp: bucket_keyGroups_push split: if_splits)
  next
    case (Match s')
    obtain rs1 kg1 where r: "compare_chunk mb t rest kg = (rs1, kg1)"
      by (cases "compare_chunk mb t rest kg")
    with Match Cons.prems have "kg' = kg1" by auto
    with Cons.IH [OF r Cons.prems(2)] show ?thesis by simp
  qed
qed

lemma compare_chunk_Mismatch:
  "st \<in> set rs \<Longrightarrow> compare_right mb t (stream st) = Mismatch key \<Longrightarrow> keyGroups_sorted kg \<Longrightarrow>
   compare_chunk mb t rs kg = (rs', kg') \<Longrightarrow> filePath st \<in> set (bucket kg' key)"
proof (induction rs arbitrary: kg rs' kg')
  case Nil
  then show ?case by simp
next
  case (Cons x rest)
  show ?case
  proof (cases "x = st")
    case True
    with Cons.prems have c: "compare_chunk mb t rest (keyGroups_push key (filePath st) kg) = (rs', kg')"
      by simp
    have "filePath st \<in> set (bucket (keyGroups_push key (filePath st) kg) key)"
      using Cons.prems(3) by (simp add: bucket_keyGroups_push)
    with compare_chunk_bucket_mono [OF c keyGroups_push_sorted [OF Cons.prems(3)], of key]
    show ?thesis by blast
  next
    case False
    with Cons.prems(1) have st: "st \<in> set rest" by simp
    show ?thesis
    proof (cases "compare_right mb t (stream x)")
      case ShortRead
      with Cons.prems have "compare_chunk mb t rest kg = (rs', kg')" by simp
      from Cons.IH [OF st Cons.prems(2,3) this] show ?thesis .
    next
      case (Mismatch key')
      with Cons.prems have "compare_chunk mb t rest (keyGroups_push key' (filePath x) kg) = (rs', kg')"
        by simp
      from Cons.IH [OF st Cons.prems(2) keyGroups_push_sorted [OF Cons.prems(3)] this] show ?thesis .
    next
      case (Match s')
      obtain rs1 kg1 where r: "compare_chunk mb t rest kg = (rs1, kg1)"
        by (cases "compare_chunk mb t rest kg")
      with Match Cons.prems have "kg' = kg1" by auto
      with Cons.IH [OF st Cons.prems(2,3) r] show ?thesis by simp
    qed
  qed
qed

lemma compare_right_read:
  assumes "ifstream_read s (length mb) = (s', rb)"
  shows "compare_right mb t s =
     (if length rb \<noteq> length mb then ShortRead
      else if mb \<noteq> rb then Mismatch (t + int (mismatchIndex mb rb), rb ! mismatchIndex mb rb)
      else Match s')"
  using assms by (simp add: compare_right_def Let_def)

lemma compare_chunk_keys_mismatch:
  assumes "keyGroups_sorted kg"
    and "st \<in> set rightStates"
    and "ifstream_read (stream st) (length masterBuffer) = (s', rightBuffer)"
    and "length rightBuffer = length masterBuffer" and "masterBuffer \<noteq> rightBuffer"
    and "compare_chunk masterBuffer totalBytesRead rightStates kg = (rightStates', kg')"
    and "i = mismatchIndex masterBuffer rightBuffer"
  shows "i < length masterBuffer \<and> take i masterBuffer = take i rightBuffer \<and>
         masterBuffer ! i \<noteq> rightBuffer ! i \<and>
         filePath st \<in> set (bucket kg' (totalBytesRead + int i, rightBuffer ! i))"
proof -
  from mismatchIndex_first [OF assms(4) [symmetric] assms(5)] assms(7)
  have "i < length masterBuffer \<and> take i masterBuffer = take i rightBuffer \<and>
         masterBuffer ! i \<noteq> rightBuffer ! i" by simp
  moreover have "compare_right masterBuffer totalBytesRead (stream st) =
      Mismatch (totalBytesRead + int i, rightBuffer ! i)"
    using assms(4,5,7) by (simp add: compare_right_read [OF assms(3)])
  from compare_chunk_Mismatch [OF assms(2) this assms(1,6)]
  have "filePath st \<in> set (bucket kg' (totalBytesRead + int i, rightBuffer ! i))" .
  ultimately show ?thesis by simp
qed

theorem pivot_byte_key_counterexample:
  "three_files ''a'' = Some [1, 2, 3] \<and> three_files ''c'' = Some [1, 9, 3] \<and>
   fst (CompareFilesBufferedAdvanced three_files ''a'' [''c''] 0 ([], [''a''], [])) = [((1, 9), [''c''])] \<and>
   bucket (fst (CompareFilesBufferedAdvanced three_files ''a'' [''c''] 0 ([], [''a''], [])))
     (0 + 1, [1, 2, 3] ! 1) = []"
proof -
  have "CompareFilesBufferedAdvanced three_files ''a'' [''c''] 0 ([], [''a''], [])
          = ([((1, 9), [''c''])], [''a''], [])"
    unfolding three_files_def by code_simp
  then show ?thesis by (simp add: three_files_def bucket_def)
qed

lemma compare_chunk_append:
  "compare_chunk mb t (xs @ ys) kg =
     (case compare_chunk mb t xs kg of
        (rs1, kg1) \<Rightarrow> (case compare_chunk mb t ys kg1 of (rs2, kg2) \<Rightarrow> (rs1 @ rs2, kg2)))"
proof (induction xs arbitrary: kg)
  case Nil
  show ?case by (simp split: prod.splits)
next
  case (Cons x xs)
  show ?case
    by (cases "compare_right mb t (stream x)") (simp_all add: Cons.IH split: prod.splits)
qed

lemma compare_chunk_ShortRead:
  assumes "compare_right mb t (stream st) = ShortRead"
  shows "compare_chunk mb t (before @ st # after) kg = compare_chunk mb t (before @ after) kg"
  using assms by (simp add: compare_chunk_append)

lemma CompareFilesBufferedAdvanced_messages:
  "snd (snd (CompareFilesBufferedAdvanced fs pivot ps t (kg, dg, out))) =
     out @ (if fs pivot = None then [ErrorOpeningMasterFile pivot]
            else map ErrorOpeningRightFile (filter (\<lambda>p. fs p = None) ps))"
proof (cases "fs pivot")
  case None
  then show ?thesis by simp
next
  case (Some m)
  then show ?thesis
    by (simp del: CompareFilesBufferedAdvanced.simps
        add: CompareFilesBufferedAdvanced_opened [where fs = fs and pivot = pivot, OF Some])
qed

lemma short_read_excluded:
  assumes "compare_right mb t (stream st) = ShortRead"
    and "distinct (map filePath (before @ st # after))"
    and "compare_chunk mb t (before @ st # after) kg = (rs', kg')"
    and "compare_chunks M rs' t' kg' = (rs'', kg'')"
    and "filePath st \<notin> set (keyGroups_paths kg)" and "filePath st \<notin> set dg"
  shows "filePath st \<notin> set (keyGroups_paths kg')" and "filePath st \<notin> set (end_check rs' dg)"
    and "filePath st \<notin> set (keyGroups_paths kg'')" and "filePath st \<notin> set (end_check rs'' dg)"
proof -
  from assms(1,3) have c: "compare_chunk mb t (before @ after) kg = (rs', kg')"
    by (simp add: compare_chunk_ShortRead)
  from assms(2) have n: "filePath st \<notin> set (map filePath (before @ after))" by auto
  note p1 = compare_chunk_paths [OF c]
  from p1 n have r': "filePath st \<notin> set (map filePath rs')" by blast
  from p1 n assms(5) show k': "filePath st \<notin> set (keyGroups_paths kg')" by blast
  note p2 = compare_chunks_paths [OF assms(4)]
  from p2 r' have r'': "filePath st \<notin> set (map filePath rs'')" by blast
  from p2 r' k' show "filePath st \<notin> set (keyGroups_paths kg'')" by blast
  from r' assms(6) show "filePath st \<notin> set (end_check rs' dg)"
    by (auto simp: end_check_eq)
  from r'' assms(6) show "filePath st \<notin> set (end_check rs'' dg)"
    by (auto simp: end_check_eq)
qed

text \<open>
  C3, as the code has it: a candidate whose read returns another number of bytes than the
  pivot's chunk is erased from the active list, and nothing is logged. The chunk's result
  is that of the list without the candidate; with distinct candidate paths its path is in
  no bucket and not in the duplicate group, whether the loop stops after this chunk or goes
  on; and the comparator's only messages are those for files that fail to open.
\<close>

theorem short_read_prunes_silently:
  "(ifstream_read (stream st) (length masterBuffer) = (s', rightBuffer) \<and>
    length rightBuffer \<noteq> length masterBuffer \<longrightarrow>
      compare_chunk masterBuffer t (before @ st # after) kg =
        compare_chunk masterBuffer t (before @ after) kg) \<and>
   (ifstream_read (stream st) (length masterBuffer) = (s', rightBuffer) \<and>
    length rightBuffer \<noteq> length masterBuffer \<and>
    distinct (map filePath (before @ st # after)) \<and>
    compare_chunk masterBuffer t (before @ st # after) kg = (rs', kg') \<and>
    compare_chunks M rs' t' kg' = (rs'', kg'') \<and>
    filePath st \<notin> set (keyGroups_paths kg) \<and> filePath st \<notin> set dg \<longrightarrow>
      filePath st \<notin> set (keyGroups_paths kg') \<and> filePath st \<notin> set (end_check rs' dg) \<and>
      filePath st \<notin> set (keyGroups_paths kg'') \<and> filePath st \<notin> set (end_check rs'' dg)) \<and>
   snd (snd (CompareFilesBufferedAdvanced fs pivot ps t (kg, dg, out))) =
     out @ (if fs pivot = None then [ErrorOpeningMasterFile pivot]
            else map ErrorOpeningRightFile (filter (\<lambda>p. fs p = None) ps))"
proof (intro conjI impI)
  assume "ifstream_read (stream st) (length masterBuffer) = (s', rightBuffer) \<and>
    length rightBuffer \<noteq> length masterBuffer"
  then have "compare_right masterBuffer t (stream st) = ShortRead"
    by (simp add: compare_right_def)
  then show "compare_chunk masterBuffer t (before @ st # after) kg =
        compare_chunk masterBuffer t (before @ after) kg"
    by (rule compare_chunk_ShortRead)
next
  show "snd (snd (CompareFilesBufferedAdvanced fs pivot ps t (kg, dg, out))) =
     out @ (if fs pivot = None then [ErrorOpeningMasterFile pivot]
            else map ErrorOpeningRightFile (filter (\<lambda>p. fs p = None) ps))"
    by (rule CompareFilesBufferedAdvanced_messages)
next
  assume a: "ifstream_read (stream st) (length masterBuffer) = (s', rightBuffer) \<and>
    length rightBuffer \<noteq> length masterBuffer \<and>
    distinct (map filePath (before @ st # after)) \<and>
    compare_chunk masterBuffer t (before @ st # after) kg = (rs', kg') \<and>
    compare_chunks M rs' t' kg' = (rs'', kg'') \<and>
    filePath st \<notin> set (keyGroups_paths kg) \<and> filePath st \<notin> set dg"
  then have sr: "compare_right masterBuffer t (stream st) = ShortRead"
    by (simp add: compare_right_def)
  from a have 1: "distinct (map filePath (before @ st # after))"
    and 2: "compare_chunk masterBuffer t (before @ st # after) kg = (rs', kg')"
    and 3: "compare_chunks M rs' t' kg' = (rs'', kg'')"
    and 4: "filePath st \<notin> set (keyGroups_paths kg)" and 5: "filePath st \<notin> set dg"
    by simp_all
  note e = short_read_excluded [OF sr 1 2 3 4 5]
  from e(1) show "filePath st \<notin> set (keyGroups_paths kg')" .
  from e(2) show "filePath st \<notin> set (end_check rs' dg)" .
  from e(3) show "filePath st \<notin> set (keyGroups_paths kg'')" .
  from e(4) show "filePath st \<notin> set (end_check rs'' dg)" .
qed

lemma candidate_s_read:
  "ifstream_read (stream candidate_s) (length [1, 2, 3 :: byte]) =
     ((stream candidate_s)\<lparr>pos := 2, eofbit := True, failbit := True\<rparr>, [1, 2])"
  by (simp add: ifstream_read_def candidate_s_def Let_def numeral_2_eq_2)

lemma short_files_run:
  "CompareFilesBufferedAdvanced short_files ''a'' [''s''] 0 ([], [''a''], []) = ([], [''a''], [])"
  unfolding short_files_def by code_simp

lemma candidate_s_loop:
  "compare_chunks (stream candidate_s) [] 3 [] = ([], [])"
  unfolding candidate_s_def by code_simp

theorem short_read_prunes_silently_witness:
  "ifstream_read (stream candidate_s) (length [1, 2, 3 :: byte]) =
     ((stream candidate_s)\<lparr>pos := 2, eofbit := True, failbit := True\<rparr>, [1, 2]) \<and>
   compare_chunk [1, 2, 3] 0 ([] @ candidate_s # []) [] = ([], []) \<and>
   filePath candidate_s \<notin> set (keyGroups_paths []) \<and>
   filePath candidate_s \<notin> set (end_check [] [''a'']) \<and>
   snd (snd (CompareFilesBufferedAdvanced short_files ''a'' [''s''] 0 ([], [''a''], []))) = []"
proof -
  note t = short_read_prunes_silently [of candidate_s "[1, 2, 3]"
      "(stream candidate_s)\<lparr>pos := 2, eofbit := True, failbit := True\<rparr>" "[1, 2]" 0 "[]" "[]" "[]"
      "[]" "[]" "stream candidate_s" 3 "[]" "[]" "[''a'']" short_files "''a''" "[''s'']" "[]"]
  have fp: "filePath candidate_s = ''s''" by (simp add: candidate_s_def)
  have l: "length [1, 2 :: byte] \<noteq> length [1, 2, 3 :: byte]" by simp
  from t [THEN conjunct1, rule_format, OF conjI [OF candidate_s_read l]]
  have c: "compare_chunk [1, 2, 3] 0 ([] @ candidate_s # []) [] = ([], [])" by simp
  have "ifstream_read (stream candidate_s) (length [1, 2, 3 :: byte]) =
          ((stream candidate_s)\<lparr>pos := 2, eofbit := True, failbit := True\<rparr>, [1, 2]) \<and>
    length [1, 2 :: byte] \<noteq> length [1, 2, 3 :: byte] \<and>
    distinct (map filePath ([] @ candidate_s # [])) \<and>
    compare_chunk [1, 2, 3] 0 ([] @ candidate_s # []) [] = ([], []) \<and>
    compare_chunks (stream candidate_s) [] 3 [] = ([], []) \<and>
    filePath candidate_s \<notin> set (keyGroups_paths []) \<and> filePath candidate_s \<notin> set [''a'']"
    using candidate_s_read c candidate_s_loop by (simp add: fp)
  from t [THEN conjunct2, THEN conjunct1, rule_format, OF this]
  have e: "filePath candidate_s \<notin> set (keyGroups_paths [])"
    "filePath candidate_s \<notin> set (end_check [] [''a''])"
    by simp_all
  from t [THEN conjunct2, THEN conjunct2]
  have m: "snd (snd (CompareFilesBufferedAdvanced short_files ''a'' [''s''] 0 ([], [''a''], []))) = []"
    by (simp add: short_files_def)
  from candidate_s_read c e m show ?thesis by (simp only: simp_thms)
qed

theorem short_read_not_logged_counterexample:
  "short_files ''a'' = Some [1, 2, 3] \<and> short_files ''s'' = Some [1, 2] \<and>
   seekg (ifstream_open short_files ''s'') 0 = stream candidate_s \<and>
   compare_right [1, 2, 3] 0 (stream candidate_s) = ShortRead \<and>
   CompareFilesBufferedAdvanced short_files ''a'' [''s''] 0 ([], [''a''], []) = ([], [''a''], [])"
proof -
  have "compare_right [1, 2, 3] 0 (stream candidate_s) = ShortRead"
    by (simp add: compare_right_read [OF candidate_s_read])
  moreover have "seekg (ifstream_open short_files ''s'') 0 = stream candidate_s"
    by (simp add: seekg_def ifstream_open_def short_files_def candidate_s_def Let_def)
  ultimately show ?thesis
    using short_files_run by (simp add: short_files_def)
qed

lemma mismatchIndex_eq:
  "length xs = length ys \<Longrightarrow> i < length xs \<Longrightarrow> take i xs = take i ys \<Longrightarrow> xs ! i \<noteq> ys ! i \<Longrightarrow>
   mismatchIndex xs ys = i"
proof (induction xs ys arbitrary: i rule: list_induct2)
  case Nil
  then show ?case by simp
next
  case (Cons x xs y ys)
  show ?case
  proof (cases i)
    case 0
    with Cons.prems show ?thesis by simp
  next
    case (Suc j)
    with Cons.prems have "x = y" "j < length xs" "take j xs = take j ys" "xs ! j \<noteq> ys ! j"
      by simp_all
    with Cons.IH [of j] Suc show ?thesis by simp
  qed
qed

lemma compare_chunk_Match:
  "st \<in> set rs \<Longrightarrow> compare_right mb t (stream st) = Match s' \<Longrightarrow>
   compare_chunk mb t rs kg = (rs', kg') \<Longrightarrow> st\<lparr>stream := s'\<rparr> \<in> set rs'"
proof (induction rs arbitrary: kg rs' kg')
  case Nil
  then show ?case by simp
next
  case (Cons x rest)
  show ?case
  proof (cases "compare_right mb t (stream x)")
    case ShortRead
    with Cons.prems have "st \<in> set rest" "compare_chunk mb t rest kg = (rs', kg')" by auto
    from Cons.IH [OF this(1) Cons.prems(2) this(2)] show ?thesis .
  next
    case (Mismatch key)
    with Cons.prems have "st \<in> set rest"
      "compare_chunk mb t rest (keyGroups_push key (filePath x) kg) = (rs', kg')" by auto
    from Cons.IH [OF this(1) Cons.prems(2) this(2)] show ?thesis .
  next
    case (Match s1)
    obtain rs1 kg1 where r: "compare_chunk mb t rest kg = (rs1, kg1)"
      by (cases "compare_chunk mb t rest kg")
    with Match Cons.prems(3) have e: "rs' = x\<lparr>stream := s1\<rparr> # rs1" by auto
    show ?thesis
    proof (cases "x = st")
      case True
      with Match Cons.prems(2) e show ?thesis by simp
    next
      case False
      with Cons.prems(1) have "st \<in> set rest" by simp
      from Cons.IH [OF this Cons.prems(2) r] e show ?thesis by simp
    qed
  qed
qed

lemma compare_chunks_bucket_mono:
  "compare_chunks M rs t kg = (rs', kg') \<Longrightarrow> keyGroups_sorted kg \<Longrightarrow>
   set (bucket kg k) \<subseteq> set (bucket kg' k)"
proof (induction M rs t kg arbitrary: rs' kg' rule: compare_chunks.induct)
  case (1 M rs t kg)
  obtain M1 mb where rd: "ifstream_read M BUFFER_SIZE = (M1, mb)"
    by (cases "ifstream_read M BUFFER_SIZE")
  show ?case
  proof (cases "mb = []")
    case True
    with rd "1.prems" show ?thesis by (simp add: compare_chunks.simps [of M])
  next
    case False
    obtain rs1 kg1 where cc: "compare_chunk mb t rs kg = (rs1, kg1)"
      by (cases "compare_chunk mb t rs kg")
    note m1 = compare_chunk_bucket_mono [OF cc "1.prems"(2), of k]
    note s1 = compare_chunk_sorted [OF cc "1.prems"(2)]
    show ?thesis
    proof (cases "rs1 = []")
      case True
      with rd False cc "1.prems"(1) m1 show ?thesis
        by (simp add: compare_chunks.simps [of M])
    next
      case ne: False
      with rd False cc "1.prems"(1)
      have r: "compare_chunks M1 rs1 (t + int (length mb)) kg1 = (rs', kg')"
        by (simp add: compare_chunks.simps [of M])
      from False have nz: "\<not> length mb \<le> 0" by simp
      from "1.IH" [OF rd [symmetric] nz cc [symmetric] ne r s1] m1 show ?thesis by blast
    qed
  qed
qed

lemma read_good:
  assumes "\<not> eofbit s" and "\<not> failbit s" and "ifstream_read s n = (s', bs)"
  shows "bs = take n (drop (pos s) (content s))" and "content s' = content s"
    and "pos s' = pos s + length bs" and "length bs = n \<Longrightarrow> \<not> eofbit s' \<and> \<not> failbit s'"
  using assms by (auto simp: ifstream_read_def Let_def split: if_splits)

lemma agree_between_shift:
  assumes "agree_between q k c m" and "q + n \<le> k"
  shows "agree_between (q + n) k c m" and "take n (drop q c) = take n (drop q m)"
proof -
  from assms(1) have e: "take (k - q) (drop q c) = take (k - q) (drop q m)"
    by (simp add: agree_between_def)
  have "take (k - (q + n)) (drop (q + n) c) = drop n (take (k - q) (drop q c))"
    by (simp add: drop_take add.commute)
  moreover have "take (k - (q + n)) (drop (q + n) m) = drop n (take (k - q) (drop q m))"
    by (simp add: drop_take add.commute)
  ultimately show "agree_between (q + n) k c m" using e by (simp add: agree_between_def)
  have "take n (drop q c) = take n (take (k - q) (drop q c))"
    using assms(2) by (simp add: min_def)
  also have "\<dots> = take n (take (k - q) (drop q m))" using e by simp
  also have "\<dots> = take n (drop q m)" using assms(2) by (simp add: min_def)
  finally show "take n (drop q c) = take n (drop q m)" .
qed

lemma compare_chunks_complete:
  assumes "compare_chunks M rs t kg = (rs', kg')"
    and "content M = m" and "\<not> eofbit M" and "\<not> failbit M" and "t = int (pos M)"
    and "st \<in> set rs" and "content (stream st) = c"
    and "\<not> eofbit (stream st)" and "\<not> failbit (stream st)" and "pos (stream st) = pos M"
    and "pos M \<le> k" and "k < length m" and "length m \<le> length c"
    and "agree_between (pos M) k c m" and "c ! k \<noteq> m ! k"
    and "keyGroups_sorted kg"
  shows "filePath st \<in> set (bucket kg' (int k, c ! k))"
  using assms
proof (induction M rs t kg arbitrary: rs' kg' st rule: compare_chunks.induct)
  case (1 M rs t kg)
  let ?q = "pos M"
  obtain M1 mb where rd: "ifstream_read M BUFFER_SIZE = (M1, mb)"
    by (cases "ifstream_read M BUFFER_SIZE")
  note rg = read_good [OF "1.prems"(3,4) rd]
  from rg(1) "1.prems"(2) have mb: "mb = take BUFFER_SIZE (drop ?q m)" by simp
  with "1.prems"(11,12) have ne: "mb \<noteq> []" by (simp add: BUFFER_SIZE_def)
  from mb have chunk: "take (length mb) (drop ?q m) = mb" by (simp add: min_def)
  from mb have lmb: "length mb \<le> length m - ?q" by simp
  obtain rs1 kg1 where cc: "compare_chunk mb t rs kg = (rs1, kg1)"
    by (cases "compare_chunk mb t rs kg")
  note s1 = compare_chunk_sorted [OF cc "1.prems"(16)]
  define rb where "rb = take (length mb) (drop ?q c)"
  from lmb "1.prems"(13) have lrb: "length rb = length mb" by (simp add: rb_def)
  then have rbp: "take (length rb) (drop ?q c) = rb" by (simp add: rb_def)
  have cr: "compare_right mb t (stream st) =
      (if mb \<noteq> rb then Mismatch (t + int (mismatchIndex mb rb), rb ! mismatchIndex mb rb)
       else Match ((stream st)\<lparr>pos := ?q + length mb\<rparr>))"
    using lrb "1.prems"(7,10)
    by (simp add: compare_right_good [OF "1.prems"(8,9)] rb_def)
  have fin: "set (bucket kg1 key) \<subseteq> set (bucket kg' key)" if "rs1 = [] \<or> True" for key
  proof (cases "rs1 = []")
    case True
    with rd ne cc "1.prems"(1) show ?thesis by (simp add: compare_chunks.simps [of M])
  next
    case False
    with rd ne cc "1.prems"(1)
    have "compare_chunks M1 rs1 (t + int (length mb)) kg1 = (rs', kg')"
      by (simp add: compare_chunks.simps [of M])
    from compare_chunks_bucket_mono [OF this s1] show ?thesis .
  qed
  show ?case
  proof (cases "k < ?q + length mb")
    case True
    define i where "i = k - ?q"
    from True "1.prems"(11) have i: "i < length mb" "?q + i = k" by (simp_all add: i_def)
    from i(1) lrb have i': "i < length rb" by simp
    note cm = chunk_nth [OF chunk i(1)]
    note cc' = chunk_nth [OF rbp i']
    from "1.prems"(14) i(2) have "take i (drop ?q c) = take i (drop ?q m)"
      by (simp add: agree_between_def i_def)
    with cm(3) cc'(3) have pre: "take i mb = take i rb" by simp
    from cm(1) cc'(1) i(2) "1.prems"(15) have d: "mb ! i \<noteq> rb ! i" by simp
    then have "mb \<noteq> rb" by auto
    moreover from mismatchIndex_eq [OF lrb [symmetric] i(1) pre d] have "mismatchIndex mb rb = i" .
    ultimately have "compare_right mb t (stream st) = Mismatch (int k, c ! k)"
      using cr cc'(1) i(2) "1.prems"(5) by simp
    from compare_chunk_Mismatch [OF "1.prems"(6) this "1.prems"(16) cc] fin [of "(int k, c ! k)"]
    show ?thesis by blast
  next
    case False
    then have le: "?q + length mb \<le> k" by simp
    note sh = agree_between_shift [OF "1.prems"(14) le]
    from sh(2) chunk have "rb = mb" by (simp add: rb_def)
    with cr have m: "compare_right mb t (stream st) = Match ((stream st)\<lparr>pos := ?q + length mb\<rparr>)"
      by simp
    let ?st' = "st\<lparr>stream := (stream st)\<lparr>pos := ?q + length mb\<rparr>\<rparr>"
    from compare_chunk_Match [OF "1.prems"(6) m cc] have in1: "?st' \<in> set rs1" .
    then have ne1: "rs1 \<noteq> []" by auto
    with rd ne cc "1.prems"(1)
    have r: "compare_chunks M1 rs1 (t + int (length mb)) kg1 = (rs', kg')"
      by (simp add: compare_chunks.simps [of M])
    have full: "length mb = BUFFER_SIZE"
    proof (rule ccontr)
      assume "length mb \<noteq> BUFFER_SIZE"
      with mb have "length mb = length m - ?q" by (simp add: min_def split: if_splits)
      with le "1.prems"(12) show False by simp
    qed
    from rg(4) [OF full] have g1: "\<not> eofbit M1" "\<not> failbit M1" by simp_all
    from rg(2,3) "1.prems"(2) have c1: "content M1 = m" and p1: "pos M1 = ?q + length mb" by simp_all
    from ne have nz: "\<not> length mb \<le> 0" by simp
    have "filePath ?st' \<in> set (bucket kg' (int k, c ! k))"
      using "1.prems"(5,7,8,9,12,13,15) le sh(1) p1
      by (intro "1.IH" [OF rd [symmetric] nz cc [symmetric] ne1 r c1 g1 _ in1 _ _ _ _ _ _ _ _ _ s1])
         simp_all
    then show ?thesis by simp
  qed
qed

lemma CompareFilesBufferedAdvanced_complete:
  assumes "CompareFilesBufferedAdvanced fs pivot ps t (kg, dg, out) = (kg', dg', out')"
    and "fs pivot = Some m" and "fs p = Some c" and "p \<in> set ps" and "0 \<le> t"
    and "keyGroups_sorted kg" and "length m \<le> length c"
    and "nat t \<le> k" and "k < length m" and "agree_between (nat t) k c m" and "c ! k \<noteq> m ! k"
  shows "p \<in> set (bucket kg' (int k, c ! k))"
proof -
  let ?M = "seekg (ifstream_open fs pivot) t"
  let ?st = "\<lparr>filePath = p, stream = seekg (ifstream_open fs p) t\<rparr>"
  let ?rs = "map (\<lambda>p. \<lparr>filePath = p, stream = seekg (ifstream_open fs p) t\<rparr>) (filter (\<lambda>p. fs p \<noteq> None) ps)"
  obtain rs1 kg1 where c: "compare_chunks ?M ?rs t kg = (rs1, kg1)"
    by (cases "compare_chunks ?M ?rs t kg")
  from assms(1) c
    CompareFilesBufferedAdvanced_opened [where fs = fs and pivot = pivot and ps = ps and t = t
      and kg = kg and dg = dg and out = out, OF assms(2)]
  have res: "kg' = kg1" by simp
  note M = opened_master [where fs = fs and p = pivot, OF assms(2,5)]
  note S = opened_master [where fs = fs and p = p, OF assms(3,5)]
  have in_rs: "?st \<in> set ?rs" using assms(3,4) by auto
  have "filePath ?st \<in> set (bucket kg1 (int k, c ! k))"
    using assms(5,8,9,7,10,11) M S
    by (intro compare_chunks_complete [OF c M(1,3,4) _ in_rs _ _ _ _ _ _ _ _ _ assms(6)]) simp_all
  with res show ?thesis by simp
qed

text \<open>
  C2, as the code has it. Within one chunk: a candidate that supplies the whole chunk with
  bytes differing from the pivot's is pushed into the bucket whose key is the pair of the
  offset so far plus the first differing index and the candidate's own byte at that index
  (the byte read from the right file, not the pivot's). Over the whole comparison, where
  the offset so far is the resume offset plus the chunks already compared: a candidate at
  least as long as the pivot whose bytes agree with the pivot's from the resume offset up
  to an offset \<open>k\<close> and differ there is, when the comparator returns, in the bucket keyed
  by \<open>k\<close> and the candidate's byte at \<open>k\<close>.
\<close>

theorem mismatch_keyed_by_candidate_byte:
  "(keyGroups_sorted kg0 \<and> st \<in> set rightStates \<and>
    ifstream_read (stream st) (length masterBuffer) = (s', rightBuffer) \<and>
    length rightBuffer = length masterBuffer \<and> masterBuffer \<noteq> rightBuffer \<and>
    compare_chunk masterBuffer totalBytesRead rightStates kg0 = (rightStates', kg1) \<and>
    i = mismatchIndex masterBuffer rightBuffer \<longrightarrow>
      i < length masterBuffer \<and> take i masterBuffer = take i rightBuffer \<and>
      masterBuffer ! i \<noteq> rightBuffer ! i \<and>
      filePath st \<in> set (bucket kg1 (totalBytesRead + int i, rightBuffer ! i))) \<and>
   (CompareFilesBufferedAdvanced fs pivot ps t (kg, dg, out) = (kg', dg', out') \<and>
    fs pivot = Some m \<and> fs p = Some c \<and> p \<in> set ps \<and> 0 \<le> t \<and> keyGroups_sorted kg \<and>
    length m \<le> length c \<and> nat t \<le> k \<and> k < length m \<and>
    agree_between (nat t) k c m \<and> c ! k \<noteq> m ! k \<longrightarrow>
      p \<in> set (bucket kg' (int k, c ! k)))"
proof (intro conjI impI)
  assume a: "keyGroups_sorted kg0 \<and> st \<in> set rightStates \<and>
    ifstream_read (stream st) (length masterBuffer) = (s', rightBuffer) \<and>
    length rightBuffer = length masterBuffer \<and> masterBuffer \<noteq> rightBuffer \<and>
    compare_chunk masterBuffer totalBytesRead rightStates kg0 = (rightStates', kg1) \<and>
    i = mismatchIndex masterBuffer rightBuffer"
  then have 1: "keyGroups_sorted kg0" and 2: "st \<in> set rightStates"
    and 3: "ifstream_read (stream st) (length masterBuffer) = (s', rightBuffer)"
    and 4: "length rightBuffer = length masterBuffer" and 5: "masterBuffer \<noteq> rightBuffer"
    and 6: "compare_chunk masterBuffer totalBytesRead rightStates kg0 = (rightStates', kg1)"
    and 7: "i = mismatchIndex masterBuffer rightBuffer"
    by simp_all
  note r = compare_chunk_keys_mismatch [OF 1 2 3 4 5 6 7]
  from r show "i < length masterBuffer" by simp
  from r show "take i masterBuffer = take i rightBuffer" by simp
  from r show "masterBuffer ! i \<noteq> rightBuffer ! i" by simp
  from r show "filePath st \<in> set (bucket kg1 (totalBytesRead + int i, rightBuffer ! i))" by simp
next
  assume a: "CompareFilesBufferedAdvanced fs pivot ps t (kg, dg, out) = (kg', dg', out') \<and>
    fs pivot = Some m \<and> fs p = Some c \<and> p \<in> set ps \<and> 0 \<le> t \<and> keyGroups_sorted kg \<and>
    length m \<le> length c \<and> nat t \<le> k \<and> k < length m \<and>
    agree_between (nat t) k c m \<and> c ! k \<noteq> m ! k"
  then have 1: "CompareFilesBufferedAdvanced fs pivot ps t (kg, dg, out) = (kg', dg', out')"
    and 2: "fs pivot = Some m" and 3: "fs p = Some c" and 4: "p \<in> set ps" and 5: "0 \<le> t"
    and 6: "keyGroups_sorted kg" and 7: "length m \<le> length c" and 8: "nat t \<le> k"
    and 9: "k < length m" and 10: "agree_between (nat t) k c m" and 11: "c ! k \<noteq> m ! k"
    by (simp_all del: CompareFilesBufferedAdvanced.simps)
  show "p \<in> set (bucket kg' (int k, c ! k))"
    by (rule CompareFilesBufferedAdvanced_complete
          [where fs = fs and pivot = pivot and p = p, OF 1 2 3 4 5 6 7 8 9 10 11])
qed

theorem mismatch_keyed_by_candidate_byte_witness:
  "mismatchIndex [1, 2, 3] [1, 9, 3] = 1 \<and>
   compare_chunk [1, 2, 3] 0 [candidate_c] [] = ([], [((1, 9), [''c''])]) \<and>
   filePath candidate_c \<in> set (bucket [((1, 9), [''c''])] (0 + int 1, [1, 9, 3] ! 1)) \<and>
   two_chunk_files ''a'' = Some (replicate 4098 0 @ [5]) \<and>
   two_chunk_files ''c'' = Some (replicate 4098 0 @ [7]) \<and>
   ''c'' \<in> set (bucket (fst (CompareFilesBufferedAdvanced two_chunk_files ''a'' [''c''] 0 ([], [''a''], [])))
            (4098, 7))"
proof -
  obtain kg' dg' out' where
    run: "CompareFilesBufferedAdvanced two_chunk_files ''a'' [''c''] 0 ([], [''a''], []) = (kg', dg', out')"
    by (cases "CompareFilesBufferedAdvanced two_chunk_files ''a'' [''c''] 0 ([], [''a''], [])")
  note t = mismatch_keyed_by_candidate_byte [of "[]" candidate_c "[candidate_c]" "[1, 2, 3]"
      "(stream candidate_c)\<lparr>pos := 3\<rparr>" "[1, 9, 3]" 0 "[]" "[((1, 9), [''c''])]" 1
      two_chunk_files "''a''" "[''c'']" 0 "[]" "[''a'']" "[]" kg' dg' out'
      "replicate 4098 0 @ [5]" "''c''" "replicate 4098 0 @ [7]" 4098]
  have r: "ifstream_read (stream candidate_c) (length [1, 2, 3 :: byte]) =
        ((stream candidate_c)\<lparr>pos := 3\<rparr>, [1, 9, 3])"
    by (simp add: ifstream_read_def candidate_c_def Let_def numeral_3_eq_3)
  have cr: "compare_right [1, 2, 3] 0 (stream candidate_c) = Mismatch (1, 9)"
    by (simp add: compare_right_read [OF r])
  have fp: "filePath candidate_c = ''c''" by (simp add: candidate_c_def)
  have c: "compare_chunk [1, 2, 3] 0 [candidate_c] [] = ([], [((1, 9), [''c''])])"
    by (simp add: cr fp)
  have i: "(1::nat) = mismatchIndex [1, 2, 3 :: byte] [1, 9, 3]" by simp
  have "keyGroups_sorted [] \<and> candidate_c \<in> set [candidate_c] \<and>
    ifstream_read (stream candidate_c) (length [1, 2, 3 :: byte]) =
        ((stream candidate_c)\<lparr>pos := 3\<rparr>, [1, 9, 3]) \<and>
    length [1, 9, 3 :: byte] = length [1, 2, 3 :: byte] \<and> [1, 2, 3 :: byte] \<noteq> [1, 9, 3] \<and>
    compare_chunk [1, 2, 3] 0 [candidate_c] [] = ([], [((1, 9), [''c''])]) \<and>
    (1::nat) = mismatchIndex [1, 2, 3 :: byte] [1, 9, 3]"
    using r c by (simp add: keyGroups_sorted_def)
  from t [THEN conjunct1, rule_format, OF this]
  have w1: "filePath candidate_c \<in> set (bucket [((1, 9), [''c''])] (0 + int 1, [1, 9, 3] ! 1))"
    by simp
  have f: "two_chunk_files ''a'' = Some (replicate 4098 0 @ [5])"
    "two_chunk_files ''c'' = Some (replicate 4098 0 @ [7])"
    by (simp_all add: two_chunk_files_def)
  have ag: "agree_between (nat 0) 4098 (replicate 4098 0 @ [7 :: byte]) (replicate 4098 0 @ [5])"
    by (simp add: agree_between_def)
  have nth: "(replicate 4098 0 @ [7 :: byte]) ! 4098 = 7" "(replicate 4098 0 @ [5 :: byte]) ! 4098 = 5"
    by (simp_all add: nth_append)
  have "CompareFilesBufferedAdvanced two_chunk_files ''a'' [''c''] 0 ([], [''a''], []) = (kg', dg', out') \<and>
    two_chunk_files ''a'' = Some (replicate 4098 0 @ [5]) \<and>
    two_chunk_files ''c'' = Some (replicate 4098 0 @ [7]) \<and> ''c'' \<in> set [''c''] \<and> (0::int) \<le> 0 \<and>
    keyGroups_sorted [] \<and>
    length (replicate 4098 0 @ [5 :: byte]) \<le> length (replicate 4098 0 @ [7 :: byte]) \<and>
    nat 0 \<le> 4098 \<and> 4098 < length (replicate 4098 0 @ [5 :: byte]) \<and>
    agree_between (nat 0) 4098 (replicate 4098 0 @ [7 :: byte]) (replicate 4098 0 @ [5]) \<and>
    (replicate 4098 0 @ [7 :: byte]) ! 4098 \<noteq> (replicate 4098 0 @ [5]) ! 4098"
    using run f ag nth
    by (simp del: CompareFilesBufferedAdvanced.simps add: keyGroups_sorted_def)
  from t [THEN conjunct2, rule_format, OF this] nth(1) run
  have w2: "''c'' \<in> set (bucket (fst (CompareFilesBufferedAdvanced two_chunk_files ''a'' [''c''] 0
              ([], [''a''], []))) (4098, 7))"
    by (simp del: CompareFilesBufferedAdvanced.simps)
  from i c w1 f w2 show ?thesis by (simp only: simp_thms)
qed

section \<open>Failures in the deduplicator\<close>

lemma compare_chunks_identical:
  assumes "compare_chunks M rs t kg = (rs', kg')"
    and "content M = m" and "(\<not> eofbit M \<and> \<not> failbit M) \<or> length m \<le> pos M"
    and "st \<in> set rs" and "content (stream st) = m"
    and "\<not> eofbit (stream st)" and "\<not> failbit (stream st)" and "pos (stream st) = pos M"
  shows "\<exists>s'. st\<lparr>stream := s'\<rparr> \<in> set rs' \<and> eofbit (ifstream_peek s')"
  using assms
proof (induction M rs t kg arbitrary: rs' kg' st rule: compare_chunks.induct)
  case (1 M rs t kg)
  obtain M1 mb where rd: "ifstream_read M BUFFER_SIZE = (M1, mb)"
    by (cases "ifstream_read M BUFFER_SIZE")
  note mr = master_read [OF rd]
  show ?case
  proof (cases "mb = []")
    case True
    with rd "1.prems"(1) have res: "rs' = rs" by (simp add: compare_chunks.simps [of M])
    have "length m \<le> pos M"
      using "1.prems"(2,3) mr(3) [OF True] by (auto simp: BUFFER_SIZE_def)
    with "1.prems"(5,6,7,8) have "eofbit (ifstream_peek (stream st))"
      by (simp add: ifstream_peek_def)
    moreover have "st\<lparr>stream := stream st\<rparr> \<in> set rs'" using "1.prems"(4) res by simp
    ultimately show ?thesis by blast
  next
    case False
    from mr(2) [OF False] "1.prems"(2)
    have chunk: "take (length mb) (drop (pos M) m) = mb" and pos1: "pos M1 = pos M + length mb"
      and M1: "(\<not> eofbit M1 \<and> \<not> failbit M1) \<or> length m \<le> pos M1"
      by auto
    obtain rs1 kg1 where cc: "compare_chunk mb t rs kg = (rs1, kg1)"
      by (cases "compare_chunk mb t rs kg")
    have m: "compare_right mb t (stream st) = Match ((stream st)\<lparr>pos := pos M + length mb\<rparr>)"
      using chunk "1.prems"(5,8) by (simp add: compare_right_good [OF "1.prems"(6,7)])
    let ?st1 = "st\<lparr>stream := (stream st)\<lparr>pos := pos M + length mb\<rparr>\<rparr>"
    from compare_chunk_Match [OF "1.prems"(4) m cc] have in1: "?st1 \<in> set rs1" .
    then have ne1: "rs1 \<noteq> []" by auto
    with rd False cc "1.prems"(1)
    have r: "compare_chunks M1 rs1 (t + int (length mb)) kg1 = (rs', kg')"
      by (simp add: compare_chunks.simps [of M])
    have c1: "content M1 = m" using mr(1) "1.prems"(2) by simp
    from False have nz: "\<not> length mb \<le> 0" by simp
    have "\<exists>s'. ?st1\<lparr>stream := s'\<rparr> \<in> set rs' \<and> eofbit (ifstream_peek s')"
      using "1.prems"(5,6,7) pos1
      by (intro "1.IH" [OF rd [symmetric] nz cc [symmetric] ne1 r c1 M1 in1]) simp_all
    then show ?thesis by simp
  qed
qed

lemma identical_pair_compared:
  assumes "fs a = Some x" and "fs b = Some x"
  shows "CompareFilesBufferedAdvanced fs a [b] 0 ([], [a], out) = ([], [a, b], out)"
proof -
  let ?M = "seekg (ifstream_open fs a) 0"
  let ?st = "\<lparr>filePath = b, stream = seekg (ifstream_open fs b) 0\<rparr>"
  obtain rs1 kg1 where c: "compare_chunks ?M [?st] 0 [] = (rs1, kg1)"
    by (cases "compare_chunks ?M [?st] 0 []")
  have run: "CompareFilesBufferedAdvanced fs a [b] 0 ([], [a], out) = (kg1, end_check rs1 [a], out)"
    using c assms(2)
      CompareFilesBufferedAdvanced_opened [where fs = fs and pivot = a and ps = "[b]" and t = 0
        and kg = "[]" and dg = "[a]" and out = out, OF assms(1)]
    by simp
  have z: "(0::int) \<le> 0" by simp
  note M = opened_master [where fs = fs and p = a, OF assms(1) z]
  note S = opened_master [where fs = fs and p = b, OF assms(2) z]
  have "\<exists>s'. ?st\<lparr>stream := s'\<rparr> \<in> set rs1 \<and> eofbit (ifstream_peek s')"
    using M S by (intro compare_chunks_identical [OF c M(1)]) simp_all
  then obtain s' where s': "?st\<lparr>stream := s'\<rparr> \<in> set rs1" "eofbit (ifstream_peek s')" by blast
  from size_mset_mono [OF compare_chunks_mset [OF c]]
  have len: "length rs1 + length (keyGroups_paths kg1) \<le> 1" by simp
  with s'(1) have rs1: "rs1 = [?st\<lparr>stream := s'\<rparr>]" and "keyGroups_paths kg1 = []"
    by (cases rs1; cases "tl rs1"; auto)+
  have "buckets_diverge fs x (nat 0) kg1"
    using CompareFilesBufferedAdvanced_sound [OF run assms(1)]
    by (simp add: buckets_diverge_def)
  with \<open>keyGroups_paths kg1 = []\<close> have "kg1 = []"
    by (cases kg1) (auto simp: buckets_diverge_def)
  with run rs1 s'(2) show ?thesis by simp
qed

lemma identical_pair_grouped:
  assumes "fs a = Some x" and "fs b = Some x"
  shows "GroupFilesByContentUsingMap fs [a, b] (dgs, out) 0 = (dgs @ [[a, b]], out)"
proof -
  have "compare_batches fs a [b] 0 0 ([], [a], out) = ([], [a, b], out)"
    using identical_pair_compared [OF assms, of out]
    by (simp add: compare_batches.simps [of fs a "[b]"] MAX_BATCH_def Let_def
        del: CompareFilesBufferedAdvanced.simps)
  then show ?thesis
    by (simp add: GroupFilesByContentUsingMap.simps [of fs "[a, b]"] Let_def)
qed

lemma LinkIdentity_eq:
  "LinkIdentity w p =
     (if open_denied w p \<or> info_denied w p then None
      else case map_of (dir w) p of
             None \<Rightarrow> None
           | Some idx \<Rightarrow> Some (uniqueId_of idx, of_nat (length (filter (\<lambda>e. snd e = idx) (dir w)))))"
  by (auto simp: LinkIdentity_def GetFileUniqueIdAndLinkCount_def CreateFileW_def
      GetFileInformationByHandle_def uniqueId_of_def split: option.splits bool.splits)

lemma query_world:
  "GetFileUniqueIdAndLinkCount p w = (r, w1) \<Longrightarrow>
   r = LinkIdentity w p \<and> dir w1 = dir w \<and> open_denied w1 = open_denied w \<and>
   info_denied w1 = info_denied w \<and> delete_denied w1 = delete_denied w \<and>
   link_denied w1 = link_denied w"
  using identity_query [where p = p and w = w]
  by (auto simp: LinkIdentity_def same_volume_def)

lemma dir_DeduplicateMember:
  "dir (DeduplicateMember master masterId dupFile w) =
     (case LinkIdentity w dupFile of
        None \<Rightarrow> dir w
      | Some (dupId, dupLinks) \<Rightarrow>
          if dupId = masterId then dir w
          else if delete_denied w dupFile then dir w
          else if link_denied w dupFile then filter (\<lambda>e. fst e \<noteq> dupFile) (dir w)
          else
            case map_of (filter (\<lambda>e. fst e \<noteq> dupFile) (dir w)) master of
              None \<Rightarrow> filter (\<lambda>e. fst e \<noteq> dupFile) (dir w)
            | Some idx \<Rightarrow> filter (\<lambda>e. fst e \<noteq> dupFile) (dir w) @ [(dupFile, idx)])"
proof -
  obtain r w1 where q: "GetFileUniqueIdAndLinkCount dupFile w = (r, w1)"
    by (cases "GetFileUniqueIdAndLinkCount dupFile w")
  note qw = query_world [OF q]
  show ?thesis
  proof (cases r)
    case None
    with q qw show ?thesis by (simp add: DeduplicateMember_def)
  next
    case (Some a)
    obtain dupId dupLinks where a: "a = (dupId, dupLinks)" by (cases a)
    from Some a qw have li: "LinkIdentity w dupFile = Some (dupId, dupLinks)" by simp
    then obtain didx where ex: "map_of (dir w) dupFile = Some didx"
      by (auto simp: LinkIdentity_eq split: if_splits option.splits)
    have gone: "map_of (filter (\<lambda>e. fst e \<noteq> dupFile) (dir w)) dupFile = None"
      by (simp add: map_of_eq_None_iff image_iff)
    from q Some a li ex gone qw show ?thesis
      by (simp add: DeduplicateMember_def DeleteFileW_def CreateHardLinkW_def Let_def
          split: option.splits)
  qed
qed

lemma refusals_DeduplicateMember:
  "open_denied (DeduplicateMember master masterId dupFile w) = open_denied w \<and>
   info_denied (DeduplicateMember master masterId dupFile w) = info_denied w \<and>
   delete_denied (DeduplicateMember master masterId dupFile w) = delete_denied w \<and>
   link_denied (DeduplicateMember master masterId dupFile w) = link_denied w"
proof -
  obtain r w1 where q: "GetFileUniqueIdAndLinkCount dupFile w = (r, w1)"
    by (cases "GetFileUniqueIdAndLinkCount dupFile w")
  note qw = query_world [OF q]
  show ?thesis
  proof (cases r)
    case None
    with q qw show ?thesis by (simp add: DeduplicateMember_def print_def)
  next
    case (Some a)
    obtain dupId dupLinks where a: "a = (dupId, dupLinks)" by (cases a)
    from q Some a qw show ?thesis
      by (simp add: DeduplicateMember_def DeleteFileW_def CreateHardLinkW_def Let_def print_def
          split: option.splits)
  qed
qed

lemma member_step_other:
  assumes "x \<noteq> d"
  shows "map_of (dir (DeduplicateMember master masterId x w)) d = map_of (dir w) d"
  using assms
  by (simp add: dir_DeduplicateMember map_of_remove_other map_add_def
      split: option.splits prod.splits)

lemma member_step_links:
  assumes "map_of (dir w) master = Some midx" and "d \<noteq> master" and "map_of (dir w) d = Some didx"
    and "\<not> open_denied w d" and "\<not> info_denied w d"
    and "\<not> delete_denied w d" and "\<not> link_denied w d"
  shows "\<exists>idx. map_of (dir (DeduplicateMember master (uniqueId_of midx) d w)) d = Some idx \<and>
           uniqueId_of idx = uniqueId_of midx"
proof -
  have li: "LinkIdentity w d =
      Some (uniqueId_of didx, of_nat (length (filter (\<lambda>e. snd e = didx) (dir w))))"
    using assms(3,4,5) by (simp add: LinkIdentity_eq)
  have gone: "map_of (filter (\<lambda>e. fst e \<noteq> d) (dir w)) d = None"
    by (simp add: map_of_eq_None_iff image_iff)
  have kept: "map_of (filter (\<lambda>e. fst e \<noteq> d) (dir w)) master = Some midx"
    using assms(1,2) by (simp add: map_of_remove_other)
  show ?thesis
  proof (cases "uniqueId_of didx = uniqueId_of midx")
    case True
    with li assms(3) show ?thesis by (simp add: dir_DeduplicateMember)
  next
    case False
    with li assms(6,7) gone kept show ?thesis
      by (simp add: dir_DeduplicateMember map_add_def)
  qed
qed

lemma DeduplicateMembers_links:
  assumes "map_of (dir w) master = Some midx" and "d \<noteq> master" and "map_of (dir w) d \<noteq> None"
    and "\<not> open_denied w d" and "\<not> info_denied w d"
    and "\<not> delete_denied w d" and "\<not> link_denied w d"
    and "d \<in> set ps \<or> (\<exists>idx. map_of (dir w) d = Some idx \<and> uniqueId_of idx = uniqueId_of midx)"
  shows "\<exists>n. LinkIdentity (DeduplicateMembers master (uniqueId_of midx) ps w) d
           = Some (uniqueId_of midx, n)"
  using assms
proof (induction ps arbitrary: w)
  case Nil
  then show ?case by (auto simp: LinkIdentity_eq)
next
  case (Cons x ps)
  let ?w1 = "DeduplicateMember master (uniqueId_of midx) x w"
  note r = refusals_DeduplicateMember [of master "uniqueId_of midx" x w]
  from DeduplicateMember_frame [OF Cons.prems(1), of x]
  have m1: "map_of (dir ?w1) master = Some midx" by simp
  from Cons.prems(3) obtain didx where didx: "map_of (dir w) d = Some didx" by auto
  have d1: "map_of (dir ?w1) d \<noteq> None \<and>
        (d \<in> set ps \<or> (\<exists>idx. map_of (dir ?w1) d = Some idx \<and> uniqueId_of idx = uniqueId_of midx))"
  proof (cases "x = d")
    case True
    from member_step_links [OF Cons.prems(1,2) didx Cons.prems(4,5,6,7)] True
    show ?thesis by auto
  next
    case False
    from member_step_other [OF False, of master "uniqueId_of midx" w] Cons.prems(3,8) False
    show ?thesis by auto
  qed
  have "\<exists>n. LinkIdentity (DeduplicateMembers master (uniqueId_of midx) ps ?w1) d
           = Some (uniqueId_of midx, n)"
    using Cons.prems(2,4,5,6,7) r d1
    by (intro Cons.IH [OF m1]) simp_all
  then show ?case by simp
qed

lemma DeduplicateGroup_links:
  assumes "LinkIdentity w (g ! 0) = Some (masterId, n)"
    and "d \<in> set (drop 1 g)" and "d \<noteq> g ! 0" and "map_of (dir w) d \<noteq> None"
    and "\<not> open_denied w d" and "\<not> info_denied w d"
    and "\<not> delete_denied w d" and "\<not> link_denied w d"
  shows "\<exists>n'. LinkIdentity (snd (DeduplicateGroup g w)) d = Some (masterId, n')"
proof -
  let ?m = "g ! 0"
  from assms(2) have len: "\<not> length g < 2" by (cases g; cases "tl g"; auto)
  obtain r w1 where q: "GetFileUniqueIdAndLinkCount ?m w = (r, w1)"
    by (cases "GetFileUniqueIdAndLinkCount ?m w")
  note qw = query_world [OF q]
  from qw assms(1) have r: "r = Some (masterId, n)" by simp
  from assms(1) obtain midx where midx: "map_of (dir w) ?m = Some midx" "masterId = uniqueId_of midx"
    by (auto simp: LinkIdentity_eq split: if_splits option.splits)
  let ?w2 = "print (MasterFile ?m) w1"
  have res: "snd (DeduplicateGroup g w) = DeduplicateMembers ?m masterId (drop 1 g) ?w2"
    using len q r by (simp add: DeduplicateGroup_def Let_def)
  have "\<exists>n'. LinkIdentity (DeduplicateMembers ?m (uniqueId_of midx) (drop 1 g) ?w2) d
           = Some (uniqueId_of midx, n')"
    using qw midx(1) assms(2-8)
    by (intro DeduplicateMembers_links) (simp_all add: print_def)
  with res midx(2) show ?thesis by simp
qed

lemma DeduplicateMembers_append:
  "DeduplicateMembers master masterId (before @ z # after) w =
     DeduplicateMembers master masterId after
       (DeduplicateMember master masterId z (DeduplicateMembers master masterId before w))"
  by (induction before arbitrary: w) simp_all

lemma same_files_groups:
  "GroupFilesByContentUsingMap same_files [''m'', ''d''] ([], out) 0 = ([[''m'', ''d'']], out)"
  using identical_pair_grouped [of same_files "''m''" "replicate 16384 0" "''d''" "[]" out]
  by (simp add: same_files_def)

lemma master_denied_groups:
  "group_by_content same_files [(16384, [''m'', ''d''])] ([], master_denied_world) =
     ([[''m'', ''d'']],
      print_members [''m'', ''d''] (print (DuplicateGroupHeader 1 16384) master_denied_world))"
  by (simp add: same_files_groups master_denied_world_def print_def)

lemma master_denied_identity:
  "LinkIdentity master_denied_world ''m'' = None"
  "LinkIdentity (print_members [''m'', ''d''] (print (DuplicateGroupHeader 1 16384) master_denied_world))
     ''m'' = None"
  by (simp_all add: LinkIdentity_eq master_denied_world_def print_members_def print_def)

lemma member_denied_identity:
  "LinkIdentity member_denied_world ''m'' = Some (7, 1)"
  "LinkIdentity member_denied_world ''z'' = Some (8, 1)"
  by (simp_all add: LinkIdentity_eq member_denied_world_def uniqueId_of_def)

lemma member_denied_run:
  "snd (DeduplicateGroup [''m'', ''z'', ''d''] member_denied_world) =
     \<lparr>dir = [(''m'', (0, 7)), (''z'', (0, 8)), (''d'', (0, 7))], open_denied = (\<lambda>p. False),
      info_denied = (\<lambda>p. False), delete_denied = (\<lambda>p. p = ''z''), link_denied = (\<lambda>p. False),
      calls = [CallCreateFile ''m'', CallGetFileInformationByHandle ''m'',
               CallCreateFile ''z'', CallGetFileInformationByHandle ''z'', CallDeleteFile ''z'',
               CallCreateFile ''d'', CallGetFileInformationByHandle ''d'',
               CallDeleteFile ''d'', CallCreateHardLink ''d'' ''m''],
      console = [MasterFile ''m'', ErrorDeletingDuplicate ''z'', ReplacedDuplicate ''d'' ''m'']\<rparr>"
  by (simp add: DeduplicateGroup_def member_denied_world_def GetFileUniqueIdAndLinkCount_def
      CreateFileW_def GetFileInformationByHandle_def DeduplicateMember_def DeleteFileW_def
      CreateHardLinkW_def print_def Let_def)

text \<open>
  C5: when the identity query on the master (the first element of a group of at least
  two) fails, \<open>DeduplicateGroup\<close> returns false having made no call but the master's
  own query, with the directory as it was, and reports the master; \<open>wmain\<close> then returns 1
  at that group. A failure on a member only skips that member: \<open>DeduplicateGroup\<close> returns
  false in no other case, exit code 1 of the loop over the groups comes only from a
  master whose query fails, and the exit code is 0 otherwise; one step of the member loop
  changes the directory as stated for each outcome (a member whose identity query or
  deletion fails leaves it as it was, a member whose link creation fails has lost its name)
  and leaves every other name as it was; the loop goes on with the members after the one
  that failed; and a member at position 1 or later that can be queried, deleted and linked
  has the master's identity when the group is done, whatever happened to the other members.
\<close>

theorem master_identity_failure_is_fatal:
  "(2 \<le> length g \<and> LinkIdentity w (g ! 0) = None \<longrightarrow>
      \<not> fst (DeduplicateGroup g w) \<and> same_volume w (snd (DeduplicateGroup g w)) \<and>
      (\<exists>new. calls (snd (DeduplicateGroup g w)) = calls w @ new \<and>
         set new \<subseteq> {CallCreateFile (g ! 0), CallGetFileInformationByHandle (g ! 0)}) \<and>
      (\<exists>old. console (snd (DeduplicateGroup g w)) = old @ [FailedToGetUniqueIdForMaster (g ! 0)])) \<and>
   (2 \<le> argc \<and> group_by_content fs sizeGroups ([], w0) = (pre @ g # rest, w1) \<and>
    fst (deduplicate_all pre w1) = 0 \<and> 2 \<le> length g \<and>
    LinkIdentity (snd (deduplicate_all pre w1)) (g ! 0) = None \<longrightarrow>
      fst (wmain argc sizeGroups fs w0) = 1) \<and>
   (fst (DeduplicateGroup g w) \<longleftrightarrow> length g < 2 \<or> LinkIdentity w (g ! 0) \<noteq> None) \<and>
   (fst (deduplicate_all gs w) = 1 \<longrightarrow>
      (\<exists>pre g rest. gs = pre @ g # rest \<and> fst (deduplicate_all pre w) = 0 \<and> 2 \<le> length g \<and>
         LinkIdentity (snd (deduplicate_all pre w)) (g ! 0) = None)) \<and>
   (fst (deduplicate_all gs w) = 0 \<or> fst (deduplicate_all gs w) = 1) \<and>
   dir (DeduplicateMember master masterId dupFile w) =
     (case LinkIdentity w dupFile of
        None \<Rightarrow> dir w
      | Some (dupId, dupLinks) \<Rightarrow>
          if dupId = masterId then dir w
          else if delete_denied w dupFile then dir w
          else if link_denied w dupFile then filter (\<lambda>e. fst e \<noteq> dupFile) (dir w)
          else
            case map_of (filter (\<lambda>e. fst e \<noteq> dupFile) (dir w)) master of
              None \<Rightarrow> filter (\<lambda>e. fst e \<noteq> dupFile) (dir w)
            | Some idx \<Rightarrow> filter (\<lambda>e. fst e \<noteq> dupFile) (dir w) @ [(dupFile, idx)]) \<and>
   (dupFile \<noteq> d \<longrightarrow>
      map_of (dir (DeduplicateMember master masterId dupFile w)) d = map_of (dir w) d) \<and>
   open_denied (DeduplicateMember master masterId dupFile w) = open_denied w \<and>
   info_denied (DeduplicateMember master masterId dupFile w) = info_denied w \<and>
   delete_denied (DeduplicateMember master masterId dupFile w) = delete_denied w \<and>
   link_denied (DeduplicateMember master masterId dupFile w) = link_denied w \<and>
   DeduplicateMembers master masterId (before @ dupFile # after) w =
     DeduplicateMembers master masterId after
       (DeduplicateMember master masterId dupFile (DeduplicateMembers master masterId before w)) \<and>
   (2 \<le> length g \<and> LinkIdentity w (g ! 0) = Some (masterId, n) \<longrightarrow>
      snd (DeduplicateGroup g w) =
        DeduplicateMembers (g ! 0) masterId (drop 1 g)
          (print (MasterFile (g ! 0)) (snd (GetFileUniqueIdAndLinkCount (g ! 0) w)))) \<and>
   (LinkIdentity w (g ! 0) = Some (masterId, n) \<and> d \<in> set (drop 1 g) \<and> d \<noteq> g ! 0 \<and>
    map_of (dir w) d \<noteq> None \<and> \<not> open_denied w d \<and> \<not> info_denied w d \<and>
    \<not> delete_denied w d \<and> \<not> link_denied w d \<longrightarrow>
      (\<exists>n'. LinkIdentity (snd (DeduplicateGroup g w)) d = Some (masterId, n')))"
proof -
  note old = master_failure_facts [of g w argc fs sizeGroups w0 pre rest w1 gs]
  note o1 = old [THEN conjunct1]
  note o2 = old [THEN conjunct2, THEN conjunct1]
  note o3 = old [THEN conjunct2, THEN conjunct2, THEN conjunct1]
  note o4 = old [THEN conjunct2, THEN conjunct2, THEN conjunct2]
  note r = refusals_DeduplicateMember [of master masterId dupFile w]
  note r1 = r [THEN conjunct1]
  note r2 = r [THEN conjunct2, THEN conjunct1]
  note r3 = r [THEN conjunct2, THEN conjunct2, THEN conjunct1]
  note r4 = r [THEN conjunct2, THEN conjunct2, THEN conjunct2]
  note ex = deduplicate_all_exit [of gs w]
  note step = dir_DeduplicateMember [of master masterId dupFile w]
  note app = DeduplicateMembers_append [of master masterId before dupFile after w]
  have other: "dupFile \<noteq> d \<longrightarrow>
      map_of (dir (DeduplicateMember master masterId dupFile w)) d = map_of (dir w) d"
    by (simp add: member_step_other)
  have loop: "2 \<le> length g \<and> LinkIdentity w (g ! 0) = Some (masterId, n) \<longrightarrow>
      snd (DeduplicateGroup g w) =
        DeduplicateMembers (g ! 0) masterId (drop 1 g)
          (print (MasterFile (g ! 0)) (snd (GetFileUniqueIdAndLinkCount (g ! 0) w)))"
    by (cases "GetFileUniqueIdAndLinkCount (g ! 0) w")
      (auto simp: DeduplicateGroup_def Let_def LinkIdentity_def)
  have links: "LinkIdentity w (g ! 0) = Some (masterId, n) \<and> d \<in> set (drop 1 g) \<and> d \<noteq> g ! 0 \<and>
    map_of (dir w) d \<noteq> None \<and> \<not> open_denied w d \<and> \<not> info_denied w d \<and>
    \<not> delete_denied w d \<and> \<not> link_denied w d \<longrightarrow>
      (\<exists>n'. LinkIdentity (snd (DeduplicateGroup g w)) d = Some (masterId, n'))"
  proof
    assume a: "LinkIdentity w (g ! 0) = Some (masterId, n) \<and> d \<in> set (drop 1 g) \<and> d \<noteq> g ! 0 \<and>
      map_of (dir w) d \<noteq> None \<and> \<not> open_denied w d \<and> \<not> info_denied w d \<and>
      \<not> delete_denied w d \<and> \<not> link_denied w d"
    then have a1: "LinkIdentity w (g ! 0) = Some (masterId, n)" and a2: "d \<in> set (drop 1 g)"
      and a3: "d \<noteq> g ! 0" and a4: "map_of (dir w) d \<noteq> None" and a5: "\<not> open_denied w d"
      and a6: "\<not> info_denied w d" and a7: "\<not> delete_denied w d" and a8: "\<not> link_denied w d"
      by simp_all
    show "\<exists>n'. LinkIdentity (snd (DeduplicateGroup g w)) d = Some (masterId, n')"
      by (rule DeduplicateGroup_links [OF a1 a2 a3 a4 a5 a6 a7 a8])
  qed
  show ?thesis
    by (intro conjI o1 o2 o3 o4 ex step other r1 r2 r3 r4 app loop links)
qed

theorem master_identity_failure_is_fatal_witness:
  "fst (DeduplicateGroup [''m'', ''d''] master_denied_world) = False \<and>
   dir (snd (DeduplicateGroup [''m'', ''d''] master_denied_world)) = dir master_denied_world \<and>
   fst (wmain 2 [(16384, [''m'', ''d''])] same_files master_denied_world) = 1 \<and>
   LinkIdentity member_denied_world ''m'' = Some (7, 1) \<and>
   dir (DeduplicateMember ''m'' 7 ''z'' member_denied_world) = dir member_denied_world \<and>
   fst (DeduplicateGroup [''m'', ''z'', ''d''] member_denied_world) = True \<and>
   dir (snd (DeduplicateGroup [''m'', ''z'', ''d''] member_denied_world)) =
     [(''m'', (0, 7)), (''z'', (0, 8)), (''d'', (0, 7))] \<and>
   console (snd (DeduplicateGroup [''m'', ''z'', ''d''] member_denied_world)) =
     [MasterFile ''m'', ErrorDeletingDuplicate ''z'', ReplacedDuplicate ''d'' ''m''] \<and>
   LinkIdentity (snd (DeduplicateGroup [''m'', ''z'', ''d''] member_denied_world)) ''d'' = Some (7, 2) \<and>
   fst (deduplicate_all [[''m'', ''z'', ''d'']] member_denied_world) = 0"
proof -
  let ?w1 = "print_members [''m'', ''d''] (print (DuplicateGroupHeader 1 16384) master_denied_world)"
  have h1: "2 \<le> length [''m'', ''d'']" "LinkIdentity master_denied_world ([''m'', ''d''] ! 0) = None"
    "(2::int) \<le> 2"
    "group_by_content same_files [(16384, [''m'', ''d''])] ([], master_denied_world) =
       ([] @ [''m'', ''d''] # [], ?w1)"
    "fst (deduplicate_all [] ?w1) = 0"
    "LinkIdentity (snd (deduplicate_all [] ?w1)) ([''m'', ''d''] ! 0) = None"
    using master_denied_identity master_denied_groups by simp_all
  note T1 = master_identity_failure_is_fatal [where g = "[''m'', ''d'']" and w = master_denied_world
      and argc = 2 and fs = same_files and sizeGroups = "[(16384, [''m'', ''d''])]"
      and ?w0.0 = master_denied_world and pre = "[]" and rest = "[]" and ?w1.0 = ?w1]
  note abort = T1 [THEN conjunct1, THEN mp, OF conjI [OF h1(1) h1(2)]]
  note exit = T1 [THEN conjunct2, THEN conjunct1, THEN mp,
      OF conjI [OF h1(3) conjI [OF h1(4) conjI [OF h1(5) conjI [OF h1(1) h1(6)]]]]]
  from abort have t1: "fst (DeduplicateGroup [''m'', ''d''] master_denied_world) = False"
    "dir (snd (DeduplicateGroup [''m'', ''d''] master_denied_world)) = dir master_denied_world"
    by (simp_all add: same_volume_def)
  have h2: "LinkIdentity member_denied_world ([''m'', ''z'', ''d''] ! 0) = Some (7, 1)"
    "''d'' \<in> set (drop 1 [''m'', ''z'', ''d''])" "''d'' \<noteq> [''m'', ''z'', ''d''] ! 0"
    "map_of (dir member_denied_world) ''d'' \<noteq> None" "\<not> open_denied member_denied_world ''d''"
    "\<not> info_denied member_denied_world ''d''" "\<not> delete_denied member_denied_world ''d''"
    "\<not> link_denied member_denied_world ''d''"
    using member_denied_identity by (simp_all add: member_denied_world_def)
  have dz: "delete_denied member_denied_world ''z''"
    by (simp add: member_denied_world_def)
  note T2 = master_identity_failure_is_fatal [where g = "[''m'', ''z'', ''d'']"
      and w = member_denied_world and masterId = 7 and n = 1 and d = "''d''" and master = "''m''"
      and dupFile = "''z''" and gs = "[[''m'', ''z'', ''d'']]" and before = "[]" and after = "[''d'']"]
  note ok = T2 [THEN conjunct2, THEN conjunct2, THEN conjunct1]
  note step = T2 [THEN conjunct2, THEN conjunct2, THEN conjunct2, THEN conjunct2, THEN conjunct2,
      THEN conjunct1]
  note links = T2 [THEN conjunct2, THEN conjunct2, THEN conjunct2, THEN conjunct2, THEN conjunct2,
      THEN conjunct2, THEN conjunct2, THEN conjunct2, THEN conjunct2, THEN conjunct2,
      THEN conjunct2, THEN conjunct2, THEN conjunct2, THEN mp,
      OF conjI [OF h2(1) conjI [OF h2(2) conjI [OF h2(3) conjI [OF h2(4) conjI [OF h2(5)
        conjI [OF h2(6) conjI [OF h2(7) h2(8)]]]]]]]]
  from ok h2(1) have t2: "fst (DeduplicateGroup [''m'', ''z'', ''d''] member_denied_world) = True"
    by simp
  from step dz have t3: "dir (DeduplicateMember ''m'' 7 ''z'' member_denied_world) = dir member_denied_world"
    by (simp add: member_denied_identity)
  have e: "fst (deduplicate_all [[''m'', ''z'', ''d'']] member_denied_world) = 0"
    by (simp add: DeduplicateGroup_def member_denied_world_def GetFileUniqueIdAndLinkCount_def
      CreateFileW_def GetFileInformationByHandle_def print_def Let_def)
  from links have t4:
    "\<exists>n'. LinkIdentity (snd (DeduplicateGroup [''m'', ''z'', ''d''] member_denied_world)) ''d'' = Some (7, n')" .
  have run: "dir (snd (DeduplicateGroup [''m'', ''z'', ''d''] member_denied_world)) =
     [(''m'', (0, 7)), (''z'', (0, 8)), (''d'', (0, 7))]"
    "console (snd (DeduplicateGroup [''m'', ''z'', ''d''] member_denied_world)) =
     [MasterFile ''m'', ErrorDeletingDuplicate ''z'', ReplacedDuplicate ''d'' ''m'']"
    "LinkIdentity (snd (DeduplicateGroup [''m'', ''z'', ''d''] member_denied_world)) ''d'' = Some (7, 2)"
    by (simp_all add: member_denied_run LinkIdentity_eq uniqueId_of_def)
  from t4 run(3) have t5:
    "LinkIdentity (snd (DeduplicateGroup [''m'', ''z'', ''d''] member_denied_world)) ''d'' = Some (7, 2)"
    by simp
  from t1 exit member_denied_identity(1) t3 t2 run(1,2) t5 e show ?thesis
    by (intro conjI)
qed

end
